theory Spec2Isabelle
  imports Complex_Main "HOL-Library.Multiset" "HOL-Library.Log_Nat"
begin

section \<open>Data model (app/models.py, app/cache.py)\<close>

text \<open>
  The pydantic class \<open>Proxy\<close> becomes a record with the same fields. Python \<open>int\<close> is
  \<open>int\<close>, \<open>str\<close> is \<open>string\<close>, \<open>X | None\<close> is \<open>X option\<close>. A \<open>float\<close> field holds
  the exact rational value of a finite binary64 number; infinities and NaN are outside the
  model. Comparisons of floats are comparisons of these values. The arithmetic of the
  scorer rounds the result of every operation to binary64 (section on binary64 below).
  The success ratio of the spot checker and the clock are kept as exact rationals.
\<close>

record Proxy =
  ip :: string
  port :: int
  protocol :: string
  anonymity :: "string option"
  country :: "string option"
  city :: "string option"
  proxy_url :: string
  speed_ms :: "rat option"
  reliability :: "rat option"
  source_count :: int
  quality_score :: rat
  verified_targets :: "string list option"

text \<open>The exceptions of the Python runtime that the modelled code can raise.\<close>

datatype error = IndexError | ValueError | ZeroDivisionError

section \<open>Binary64 arithmetic\<close>

text \<open>
  Rounding of an integer-valued quotient to the nearest integer, a tie going to the even
  neighbour: the rounding rule of IEEE 754 arithmetic and of Python's \<open>round\<close>.
\<close>

definition round_half_even :: "rat \<Rightarrow> int" where
  "round_half_even x =
     (let f = \<lfloor>x\<rfloor>; d = x - of_int f
      in if d < 1 / 2 then f
         else if 1 / 2 < d then f + 1
         else if even f then f else f + 1)"

text \<open>
  The binary exponent of a positive rational: the \<open>e\<close> with \<open>2^e \<le> x < 2^(e+1)\<close>.
\<close>

definition expo :: "rat \<Rightarrow> int" where
  "expo x = (if 1 \<le> x then bitlen \<lfloor>x\<rfloor> - 1 else - bitlen (\<lceil>1 / x\<rceil> - 1))"

text \<open>
  The spacing of the binary64 numbers around \<open>x\<close>: 53 significant bits, and the fixed
  spacing \<open>2^-1074\<close> of the subnormal numbers below \<open>2^-1022\<close>. \<open>binary64 x\<close> is the
  binary64 number nearest to \<open>x\<close>, ties to even: the value of a decimal literal, and the
  result of an arithmetic operation whose exact result is \<open>x\<close>. The exponent range is not
  bounded above, so overflow to infinity is not modelled; in the scorer it would need a
  \<open>source_count\<close> beyond \<open>10^308\<close>.
\<close>

definition ulp :: "rat \<Rightarrow> rat" where
  "ulp x = 2 powi (max (expo \<bar>x\<bar>) (- 1022) - 52)"

definition binary64 :: "rat \<Rightarrow> rat" where
  "binary64 x = of_int (round_half_even (x / ulp x)) * ulp x"

text \<open>
  The float operations \<open>+\<close>, \<open>-\<close>, \<open>*\<close>, \<open>/\<close> and the conversion of an \<open>int\<close> operand
  to \<open>float\<close>.
\<close>

definition fadd :: "rat \<Rightarrow> rat \<Rightarrow> rat" where
  "fadd a b = binary64 (a + b)"

definition fsub :: "rat \<Rightarrow> rat \<Rightarrow> rat" where
  "fsub a b = binary64 (a - b)"

definition fmul :: "rat \<Rightarrow> rat \<Rightarrow> rat" where
  "fmul a b = binary64 (a * b)"

definition fdiv :: "rat \<Rightarrow> rat \<Rightarrow> rat" where
  "fdiv a b = binary64 (a / b)"

definition int_to_float :: "int \<Rightarrow> rat" where
  "int_to_float n = binary64 (of_int n)"

text \<open>
  Python's \<open>round(x, n)\<close> on a float: the exact value of \<open>x\<close> is rounded to the nearest
  multiple of \<open>10^-n\<close>, a tie going to the even multiple, and that decimal is converted
  back to the nearest float.
\<close>

definition py_round :: "rat \<Rightarrow> nat \<Rightarrow> rat" where
  "py_round x n = binary64 (of_int (round_half_even (x * 10 ^ n)) / 10 ^ n)"

section \<open>Quality scorer (app/verification.py)\<close>

text \<open>The dict literal \<open>anon_scores\<close> and \<open>dict.get(key, default)\<close>.\<close>

definition anon_scores :: "string \<rightharpoonup> rat" where
  "anon_scores = [''elite'' \<mapsto> binary64 (1 / 10), ''anonymous'' \<mapsto> binary64 (6 / 100),
     ''transparent'' \<mapsto> binary64 (2 / 100)]"

definition dict_get :: "('k \<rightharpoonup> 'v) \<Rightarrow> 'k \<Rightarrow> 'v \<Rightarrow> 'v" where
  "dict_get d k dflt = (case d k of None \<Rightarrow> dflt | Some v \<Rightarrow> v)"

text \<open>\<open>s or ""\<close> for an optional string: \<open>None\<close> and the empty string are falsy.\<close>

definition or_empty :: "string option \<Rightarrow> string" where
  "or_empty s = (case s of None \<Rightarrow> [] | Some a \<Rightarrow> if a = [] then [] else a)"

text \<open>
  \<open>compute_quality_score\<close>: the local \<open>score\<close> is threaded through the five
  \<open>score += ...\<close> statements in source order; each \<open>if\<close> without \<open>else\<close> leaves it
  unchanged. Every decimal literal is the binary64 number it denotes and every operation
  rounds to binary64.
\<close>

definition compute_quality_score :: "Proxy \<Rightarrow> rat" where
  "compute_quality_score proxy =
     (let score0 = 0;
          score1 = fadd score0
                     (min (fmul (int_to_float (source_count proxy)) (binary64 (1 / 10)))
                          (binary64 (3 / 10)));
          score2 = (case reliability proxy of
                      None \<Rightarrow> score1
                    | Some r \<Rightarrow> fadd score1 (fmul r (binary64 (3 / 10))));
          score3 = (case speed_ms proxy of
                      None \<Rightarrow> score2
                    | Some s \<Rightarrow>
                        if 0 < s
                        then fadd score2
                               (max 0 (fsub (binary64 (2 / 10)) (fdiv s (int_to_float 25000))))
                        else score2);
          score4 = fadd score3 (dict_get anon_scores (or_empty (anonymity proxy)) 0);
          score5 = (case verified_targets proxy of
                      None \<Rightarrow> score4
                    | Some vt \<Rightarrow>
                        if vt \<noteq> []
                        then fadd score4
                               (min (fmul (int_to_float (int (length vt))) (binary64 (2 / 100)))
                                    (binary64 (1 / 10)))
                        else score4)
      in py_round (min score5 1) 3)"

subsection \<open>The scorer as the specification words it\<close>

text \<open>
  A Canonical Proxy Record of the data model: \<open>source_count\<close> is at least 1 and the
  anonymity is one of the three canonical tags or absent.
\<close>

definition canonical_record :: "Proxy \<Rightarrow> bool" where
  "canonical_record p \<longleftrightarrow>
     1 \<le> source_count p \<and>
     anonymity p \<in> {None, Some ''elite'', Some ''anonymous'', Some ''transparent''}"

definition reliability_in_unit :: "Proxy \<Rightarrow> bool" where
  "reliability_in_unit p \<longleftrightarrow>
     (case reliability p of None \<Rightarrow> True | Some r \<Rightarrow> 0 \<le> r \<and> r \<le> 1)"

text \<open>
  The five contributions and their sum, in the program's arithmetic: the expressions of
  the specification read as Python expressions on floats, the sum accumulated from zero in
  the order in which the contributions are listed.
\<close>

definition spec_corroboration :: "Proxy \<Rightarrow> rat" where
  "spec_corroboration p =
     min (fmul (int_to_float (source_count p)) (binary64 (1 / 10))) (binary64 (3 / 10))"

definition spec_reliability :: "Proxy \<Rightarrow> rat" where
  "spec_reliability p =
     (case reliability p of Some r \<Rightarrow> fmul r (binary64 (3 / 10)) | None \<Rightarrow> 0)"

definition spec_speed :: "Proxy \<Rightarrow> rat" where
  "spec_speed p =
     (case speed_ms p of
        Some s \<Rightarrow> if 0 < s then max 0 (fsub (binary64 (2 / 10)) (fdiv s (int_to_float 25000)))
                  else 0
      | None \<Rightarrow> 0)"

definition spec_anonymity :: "Proxy \<Rightarrow> rat" where
  "spec_anonymity p =
     (if anonymity p = Some ''elite'' then binary64 (1 / 10)
      else if anonymity p = Some ''anonymous'' then binary64 (6 / 100)
      else if anonymity p = Some ''transparent'' then binary64 (2 / 100)
      else 0)"

definition verified_target_count :: "Proxy \<Rightarrow> nat" where
  "verified_target_count p = (case verified_targets p of None \<Rightarrow> 0 | Some vt \<Rightarrow> length vt)"

definition spec_verified :: "Proxy \<Rightarrow> rat" where
  "spec_verified p =
     min (fmul (int_to_float (int (verified_target_count p))) (binary64 (2 / 100)))
         (binary64 (1 / 10))"

definition spec_sum :: "Proxy \<Rightarrow> rat" where
  "spec_sum p =
     foldl fadd 0 [spec_corroboration p, spec_reliability p, spec_speed p,
                   spec_anonymity p, spec_verified p]"

definition spec_quality_score :: "Proxy \<Rightarrow> rat" where
  "spec_quality_score p = py_round (min (spec_sum p) 1) 3"

section \<open>Merge engine (app/sources.py)\<close>

type_synonym group_key = "string \<times> int"

definition proxy_key :: "Proxy \<Rightarrow> group_key" where
  "proxy_key p = (ip p, port p)"

text \<open>
  \<open>groups\<close> is a \<open>defaultdict(list)\<close>. A Python dict iterates in the order in which its
  keys were first inserted, and that order decides the order of \<open>merged\<close>, so the dict
  is an association list in insertion order. \<open>groups[(p.ip, p.port)].append(p)\<close>
  appends to the list of an existing key, or inserts the key at the end with the
  one-element list.
\<close>

fun groups_append :: "(group_key \<times> Proxy list) list \<Rightarrow> Proxy \<Rightarrow> (group_key \<times> Proxy list) list" where
  "groups_append [] p = [(proxy_key p, [p])]"
| "groups_append ((k, g) # rest) p =
     (if k = proxy_key p then (k, g @ [p]) # rest else (k, g) # groups_append rest p)"

definition build_groups :: "Proxy list \<Rightarrow> (group_key \<times> Proxy list) list" where
  "build_groups all_proxies = foldl groups_append [] all_proxies"

definition anon_rank_table :: "string \<rightharpoonup> int" where
  "anon_rank_table = [''elite'' \<mapsto> 3, ''anonymous'' \<mapsto> 2, ''transparent'' \<mapsto> 1]"

definition anon_rank :: "string option \<Rightarrow> int" where
  "anon_rank a = dict_get anon_rank_table (or_empty a) 0"

text \<open>Truth value of an optional string in a condition: \<open>None\<close> and \<open>""\<close> are falsy.\<close>

definition truthy :: "string option \<Rightarrow> bool" where
  "truthy s = (case s of None \<Rightarrow> False | Some a \<Rightarrow> a \<noteq> [])"

text \<open>
  One iteration of \<open>for p in group\<close>, on the three locals
  \<open>(best_speed, best_reliability, best_anonymity)\<close>.
\<close>

fun merge_step :: "rat option \<times> rat option \<times> string option \<Rightarrow> Proxy
    \<Rightarrow> rat option \<times> rat option \<times> string option" where
  "merge_step (best_speed, best_reliability, best_anonymity) p =
     (let best_speed' =
            (case speed_ms p of
               None \<Rightarrow> best_speed
             | Some s \<Rightarrow>
                 (case best_speed of
                    None \<Rightarrow> Some s
                  | Some b \<Rightarrow> if s < b then Some s else best_speed));
          best_reliability' =
            (case reliability p of
               None \<Rightarrow> best_reliability
             | Some r \<Rightarrow>
                 (case best_reliability of
                    None \<Rightarrow> Some r
                  | Some b \<Rightarrow> if b < r then Some r else best_reliability));
          best_anonymity' =
            (if truthy (anonymity p) \<and>
                (best_anonymity = None \<or> anon_rank best_anonymity < anon_rank (anonymity p))
             then anonymity p else best_anonymity)
      in (best_speed', best_reliability', best_anonymity'))"

text \<open>
  The body of \<open>for (_ip, _port), group in groups.items()\<close>. \<open>group[0]\<close> raises
  \<open>IndexError\<close> on an empty list. The new \<open>Proxy\<close> takes the class defaults for the
  fields the call does not pass (\<open>city\<close>, \<open>verified_targets\<close>, \<open>quality_score = 0.0\<close>),
  and its score is assigned afterwards.
\<close>

fun merge_group :: "Proxy list \<Rightarrow> error + Proxy" where
  "merge_group [] = Inl IndexError"
| "merge_group (base # rest) =
     (let group = base # rest;
          source_count = int (length group);
          (best_speed, best_reliability, best_anonymity) =
             foldl merge_step (None, None, anonymity base) group;
          proxy = \<lparr>ip = ip base, port = port base, protocol = protocol base,
                   anonymity = best_anonymity, country = country base, city = None,
                   proxy_url = proxy_url base, speed_ms = best_speed,
                   reliability = best_reliability, source_count = source_count,
                   quality_score = 0, verified_targets = None\<rparr>
      in Inr (proxy\<lparr>quality_score := compute_quality_score proxy\<rparr>))"

fun merge_groups :: "(group_key \<times> Proxy list) list \<Rightarrow> error + Proxy list" where
  "merge_groups [] = Inr []"
| "merge_groups ((k, grp) # rest) =
     (case merge_group grp of
        Inl e \<Rightarrow> Inl e
      | Inr proxy \<Rightarrow>
          (case merge_groups rest of
             Inl e \<Rightarrow> Inl e
           | Inr merged \<Rightarrow> Inr (proxy # merged)))"

text \<open>
  \<open>merged.sort(key=lambda p: p.quality_score, reverse=True)\<close>: Python's sort is stable,
  and with \<open>reverse=True\<close> records with equal keys still keep their original order. That is
  the stable ascending sort on the negated key.
\<close>

definition sort_by_quality_desc :: "Proxy list \<Rightarrow> Proxy list" where
  "sort_by_quality_desc merged = sort_key (\<lambda>p. - quality_score p) merged"

definition merge_and_deduplicate :: "Proxy list \<Rightarrow> error + Proxy list" where
  "merge_and_deduplicate all_proxies =
     (case merge_groups (build_groups all_proxies) of
        Inl e \<Rightarrow> Inl e
      | Inr merged \<Rightarrow> Inr (sort_by_quality_desc merged))"

section \<open>Fetch orchestrator (app/sources.py)\<close>

text \<open>
  What awaiting one adapter coroutine gives: the list it returns, or the class name of the
  exception it raises. The three outcomes are the inputs of the model; the network behind
  them is not modelled.
\<close>

type_synonym fetch_outcome = "string + Proxy list"

text \<open>One iteration of \<open>for name, coro in fetchers.items()\<close> with its \<open>try\<close>/\<open>except\<close>.\<close>

fun fetch_step :: "Proxy list \<times> (string \<rightharpoonup> string) \<Rightarrow> string \<times> fetch_outcome
    \<Rightarrow> Proxy list \<times> (string \<rightharpoonup> string)" where
  "fetch_step (all_proxies, status) (name, Inr fetched) =
     (all_proxies @ fetched, status(name \<mapsto> ''ok''))"
| "fetch_step (all_proxies, status) (name, Inl exc) =
     (all_proxies, status(name \<mapsto> ''error: '' @ exc))"

definition fetch_all_sources :: "fetch_outcome \<Rightarrow> fetch_outcome \<Rightarrow> fetch_outcome
    \<Rightarrow> error + Proxy list \<times> (string \<rightharpoonup> string)" where
  "fetch_all_sources proxifly vakhov clearproxy =
     (let fetchers = [(''proxifly'', proxifly), (''vakhov'', vakhov),
                      (''clearproxy'', clearproxy)];
          (all_proxies, status) = foldl fetch_step ([], Map.empty) fetchers
      in case merge_and_deduplicate all_proxies of
           Inl e \<Rightarrow> Inl e
         | Inr merged \<Rightarrow> Inr (merged, status))"

section \<open>Spot checker (app/verification.py)\<close>

text \<open>
  \<open>random.sample(population, k)\<close> of the standard library: \<open>ValueError\<close> unless
  \<open>0 \<le> k \<le> len(population)\<close>, otherwise \<open>k\<close> elements drawn one after the other from
  the positions not drawn yet. The generator is the function \<open>rng\<close>: its \<open>i\<close>-th number
  picks the position in the remaining pool. \<open>random_sample\<close> calls \<open>draw\<close> with
  \<open>k \<le> len(population)\<close> only, so the pool never runs out before \<open>k\<close> elements
  are drawn.
\<close>

fun draw :: "(nat \<Rightarrow> nat) \<Rightarrow> nat \<Rightarrow> 'a list \<Rightarrow> nat \<Rightarrow> 'a list" where
  "draw rng i pool 0 = []"
| "draw rng i pool (Suc k) =
     (if pool = [] then []
      else let j = rng i mod length pool
           in pool ! j # draw rng (Suc i) (take j pool @ drop (Suc j) pool) k)"

definition random_sample :: "(nat \<Rightarrow> nat) \<Rightarrow> 'a list \<Rightarrow> int \<Rightarrow> error + 'a list" where
  "random_sample rng population k =
     (if k < 0 \<or> int (length population) < k then Inl ValueError
      else Inr (draw rng 0 population (nat k)))"

text \<open>
  One entry of the list that \<open>asyncio.gather(..., return_exceptions=True)\<close> returns for a
  probe: the boolean \<open>_test_single_proxy\<close> returned, or an exception object. The outcome
  of the \<open>i\<close>-th probe is given by \<open>probe i\<close>.
\<close>

datatype probe_result = Returned bool | Raised string

definition spot_check_proxies :: "(nat \<Rightarrow> nat) \<Rightarrow> (nat \<Rightarrow> Proxy \<Rightarrow> probe_result)
    \<Rightarrow> Proxy list \<Rightarrow> int \<Rightarrow> error + rat" where
  "spot_check_proxies rng probe proxy_list sample_size =
     (if proxy_list = [] then Inr 0
      else case random_sample rng proxy_list (min sample_size (int (length proxy_list))) of
             Inl e \<Rightarrow> Inl e
           | Inr sample \<Rightarrow>
               (let results = map (\<lambda>(i, p). probe i p) (enumerate 0 sample);
                    successes = length (filter (\<lambda>r. r = Returned True) results)
                in if length sample = 0 then Inl ZeroDivisionError
                   else Inr (of_nat successes / of_nat (length sample))))"

section \<open>Cache and refresh cycle (app/cache.py, app/main.py)\<close>

record ProxyCache =
  proxies :: "Proxy list"
  cached_at :: rat
  source_status :: "string \<rightharpoonup> string"
  spot_check_success_rate :: "rat option"

text \<open>\<open>ProxyCache.update\<close>; the value of \<open>time.time()\<close> is the argument \<open>now\<close>.\<close>

definition update :: "ProxyCache \<Rightarrow> Proxy list \<Rightarrow> (string \<rightharpoonup> string) \<Rightarrow> rat \<Rightarrow> ProxyCache" where
  "update self new_proxies new_status now =
     self\<lparr>proxies := new_proxies, cached_at := now, source_status := new_status\<rparr>"

definition is_empty :: "ProxyCache \<Rightarrow> bool" where
  "is_empty self \<longleftrightarrow> length (proxies self) = 0"

text \<open>
  Everything one run of \<open>refresh_cache\<close> reads from outside the cache: the outcomes of the
  three adapters, the clock, the random generator, the probe outcomes and the configured
  \<open>SPOT_CHECK_SAMPLE_SIZE\<close>.
\<close>

record cycle_env =
  proxifly_outcome :: fetch_outcome
  vakhov_outcome :: fetch_outcome
  clearproxy_outcome :: fetch_outcome
  clock :: rat
  generator :: "nat \<Rightarrow> nat"
  prober :: "nat \<Rightarrow> Proxy \<Rightarrow> probe_result"
  SPOT_CHECK_SAMPLE_SIZE :: int

text \<open>
  \<open>refresh_cache\<close>: an exception anywhere in the \<open>try\<close> block is caught and logged, and
  the cache stays as the statements before the exception left it.
\<close>

definition refresh_cache :: "cycle_env \<Rightarrow> ProxyCache \<Rightarrow> ProxyCache" where
  "refresh_cache env cache =
     (case fetch_all_sources (proxifly_outcome env) (vakhov_outcome env)
             (clearproxy_outcome env) of
        Inl e \<Rightarrow> cache
      | Inr (new_proxies, new_status) \<Rightarrow>
          if new_proxies \<noteq> [] \<or> is_empty cache then
            (let cache1 = update cache new_proxies new_status (clock env)
             in case spot_check_proxies (generator env) (prober env) new_proxies
                       (SPOT_CHECK_SAMPLE_SIZE env) of
                  Inl e \<Rightarrow> cache1
                | Inr rate \<Rightarrow> cache1\<lparr>spot_check_success_rate := Some rate\<rparr>)
          else cache\<lparr>source_status := new_status\<rparr>)"

section \<open>Notions the statements use\<close>

text \<open>The records of the input that share a key, in input order: the group of the key.\<close>

definition group_of :: "group_key \<Rightarrow> Proxy list \<Rightarrow> Proxy list" where
  "group_of k all_proxies = filter (\<lambda>p. proxy_key p = k) all_proxies"

text \<open>The position of the first occurrence of a key in a list of keys.\<close>

definition first_index :: "'a \<Rightarrow> 'a list \<Rightarrow> nat" where
  "first_index k ks = length (takeWhile (\<lambda>x. x \<noteq> k) ks)"

text \<open>Minimum and maximum of the observed values; absent when nothing was observed.\<close>

definition min_observed :: "rat list \<Rightarrow> rat option" where
  "min_observed xs = (if xs = [] then None else Some (Min (set xs)))"

definition max_observed :: "rat list \<Rightarrow> rat option" where
  "max_observed xs = (if xs = [] then None else Some (Max (set xs)))"

text \<open>An optional value as the list of the values observed: none or one.\<close>

definition opt_list :: "'a option \<Rightarrow> 'a list" where
  "opt_list x = (case x of None \<Rightarrow> [] | Some v \<Rightarrow> [v])"

text \<open>The record of a merged list that carries a given key.\<close>

definition find_record :: "group_key \<Rightarrow> Proxy list \<Rightarrow> Proxy option" where
  "find_record k merged = List.find (\<lambda>m. proxy_key m = k) merged"

text \<open>
  What one adapter contributes: its records if it succeeded, and its entry in the status
  report.
\<close>

definition succeeded :: "fetch_outcome \<Rightarrow> bool" where
  "succeeded outcome = (case outcome of Inr fetched \<Rightarrow> True | Inl exc \<Rightarrow> False)"

definition records_of :: "fetch_outcome \<Rightarrow> Proxy list" where
  "records_of outcome = (case outcome of Inr fetched \<Rightarrow> fetched | Inl exc \<Rightarrow> [])"

definition status_of :: "fetch_outcome \<Rightarrow> string" where
  "status_of outcome = (case outcome of Inr fetched \<Rightarrow> ''ok'' | Inl exc \<Rightarrow> ''error: '' @ exc)"

text \<open>The number of probes of a sample that returned \<open>True\<close>.\<close>

definition probe_successes :: "(nat \<Rightarrow> Proxy \<Rightarrow> probe_result) \<Rightarrow> Proxy list \<Rightarrow> nat" where
  "probe_successes probe sample =
     length (filter (\<lambda>r. r = Returned True) (map (\<lambda>(i, p). probe i p) (enumerate 0 sample)))"

section \<open>Example data\<close>

text \<open>
  A record as the adapters build it, \<open>Proxy(ip=..., port=..., protocol=..., ...)\<close>: the
  fields the call does not pass take the class defaults.
\<close>

definition raw_record :: "string \<Rightarrow> int \<Rightarrow> string \<Rightarrow> string option \<Rightarrow> string
    \<Rightarrow> rat option \<Rightarrow> rat option \<Rightarrow> Proxy" where
  "raw_record a pt proto anon url speed rel =
     \<lparr>ip = a, port = pt, protocol = proto, anonymity = anon, country = None, city = None,
      proxy_url = url, speed_ms = speed, reliability = rel, source_count = 1,
      quality_score = 0, verified_targets = None\<rparr>"

definition example_scored :: Proxy where
  "example_scored =
     \<lparr>ip = ''1.1.1.1'', port = 80, protocol = ''http'', anonymity = Some ''elite'',
      country = Some ''US'', city = None, proxy_url = ''http://1.1.1.1:80'',
      speed_ms = Some 80, reliability = Some (binary64 (9 / 10)), source_count = 2,
      quality_score = 0, verified_targets = Some [''example.org'']\<rparr>"

definition raw_a1 :: Proxy where
  "raw_a1 = raw_record ''1.1.1.1'' 80 ''http'' (Some ''transparent'') ''http://1.1.1.1:80''
     (Some 120) (Some (binary64 (6 / 10)))"

definition raw_a2 :: Proxy where
  "raw_a2 = raw_record ''1.1.1.1'' 80 ''https'' (Some ''elite'') ''https://1.1.1.1:80''
     (Some 80) (Some (binary64 (9 / 10)))"

definition raw_b :: Proxy where
  "raw_b = raw_record ''2.2.2.2'' 8080 ''socks5'' None ''socks5://2.2.2.2:8080'' None None"

definition raw_c :: Proxy where
  "raw_c = raw_record ''3.3.3.3'' 3128 ''http'' None ''http://3.3.3.3:3128'' None None"

text \<open>What merging \<open>raw_a1\<close> and \<open>raw_a2\<close> gives.\<close>

definition merged_a :: Proxy where
  "merged_a =
     \<lparr>ip = ''1.1.1.1'', port = 80, protocol = ''http'', anonymity = Some ''elite'',
      country = None, city = None, proxy_url = ''http://1.1.1.1:80'',
      speed_ms = Some 80, reliability = Some (binary64 (9 / 10)), source_count = 2,
      quality_score = binary64 (767 / 1000), verified_targets = None\<rparr>"

text \<open>
  Two records whose exact decimal sum is a tie at the fourth decimal, as the vakhov adapter
  builds them: reliability 0.705 from one source (decimal sum 0.3115), and speed 12.5 ms
  from one source (decimal sum 0.2995).
\<close>

definition tie_reliability :: Proxy where
  "tie_reliability = raw_record ''4.4.4.4'' 8080 ''http'' None ''http://4.4.4.4:8080''
     None (Some (binary64 (705 / 1000)))"

definition tie_speed :: Proxy where
  "tie_speed = raw_record ''5.5.5.5'' 8080 ''http'' None ''http://5.5.5.5:8080''
     (Some (25 / 2)) None"

text \<open>A generator that always picks the first remaining position, and two probers.\<close>

definition first_position :: "nat \<Rightarrow> nat" where
  "first_position i = 0"

definition always_up :: "nat \<Rightarrow> Proxy \<Rightarrow> probe_result" where
  "always_up i p = Returned True"

definition even_up :: "nat \<Rightarrow> Proxy \<Rightarrow> probe_result" where
  "even_up i p = (if even i then Returned True else Returned False)"

text \<open>A cache that holds one record, and a cycle in which no adapter delivers a record.\<close>

definition cache_before :: ProxyCache where
  "cache_before =
     \<lparr>proxies = [merged_a], cached_at = 1000,
      source_status = [''proxifly'' \<mapsto> ''ok'', ''vakhov'' \<mapsto> ''ok'', ''clearproxy'' \<mapsto> ''ok''],
      spot_check_success_rate = Some (4 / 5)\<rparr>"

definition outage_env :: cycle_env where
  "outage_env =
     \<lparr>proxifly_outcome = Inl ''ConnectTimeout'', vakhov_outcome = Inl ''HTTPStatusError'',
      clearproxy_outcome = Inr [], clock = 1600, generator = first_position,
      prober = always_up, SPOT_CHECK_SAMPLE_SIZE = 5\<rparr>"

definition outage_status :: "string \<rightharpoonup> string" where
  "outage_status =
     [''proxifly'' \<mapsto> ''error: ConnectTimeout'', ''vakhov'' \<mapsto> ''error: HTTPStatusError'',
      ''clearproxy'' \<mapsto> ''ok'']"

section \<open>Properties of binary64 rounding\<close>

lemma round_half_even_of_int: "round_half_even (of_int k) = k"
  by (simp add: round_half_even_def)

lemma round_half_even_lower: "\<lfloor>x\<rfloor> \<le> round_half_even x"
  by (simp add: round_half_even_def Let_def)

lemma round_half_even_upper: "round_half_even x \<le> \<lfloor>x\<rfloor> + 1"
  by (simp add: round_half_even_def Let_def)

lemma round_half_even_bounds:
  assumes "of_int a \<le> x" and "x \<le> of_int b"
  shows "a \<le> round_half_even x \<and> round_half_even x \<le> b"
proof
  have "a \<le> \<lfloor>x\<rfloor>" using assms(1) by (simp add: le_floor_iff)
  then show "a \<le> round_half_even x"
    using round_half_even_lower [of x] by linarith
next
  show "round_half_even x \<le> b"
  proof (cases "x = of_int b")
    case True
    then show ?thesis by (simp add: round_half_even_of_int)
  next
    case False
    with assms(2) have "x < of_int b" by simp
    then have "\<lfloor>x\<rfloor> < b" by (simp add: floor_less_iff)
    then show ?thesis using round_half_even_upper [of x] by linarith
  qed
qed

lemma round_half_even_cases:
  "(round_half_even z = \<lfloor>z\<rfloor> \<and> z - of_int \<lfloor>z\<rfloor> \<le> 1 / 2
      \<and> (z - of_int \<lfloor>z\<rfloor> = 1 / 2 \<longrightarrow> even \<lfloor>z\<rfloor>))
   \<or> (round_half_even z = \<lfloor>z\<rfloor> + 1 \<and> 1 / 2 \<le> z - of_int \<lfloor>z\<rfloor>
      \<and> (z - of_int \<lfloor>z\<rfloor> = 1 / 2 \<longrightarrow> odd \<lfloor>z\<rfloor>))"
  by (simp add: round_half_even_def Let_def)

lemma round_half_even_nearest: "\<bar>of_int (round_half_even z) - z\<bar> \<le> 1 / 2"
proof -
  have b: "of_int \<lfloor>z\<rfloor> \<le> z" "z < of_int \<lfloor>z\<rfloor> + 1" by linarith+
  from round_half_even_cases [of z] show ?thesis
  proof
    assume a: "round_half_even z = \<lfloor>z\<rfloor> \<and> z - of_int \<lfloor>z\<rfloor> \<le> 1 / 2
      \<and> (z - of_int \<lfloor>z\<rfloor> = 1 / 2 \<longrightarrow> even \<lfloor>z\<rfloor>)"
    then have "of_int (round_half_even z) - z = of_int \<lfloor>z\<rfloor> - z" by simp
    with a b show ?thesis by linarith
  next
    assume a: "round_half_even z = \<lfloor>z\<rfloor> + 1 \<and> 1 / 2 \<le> z - of_int \<lfloor>z\<rfloor>
      \<and> (z - of_int \<lfloor>z\<rfloor> = 1 / 2 \<longrightarrow> odd \<lfloor>z\<rfloor>)"
    then have "of_int (round_half_even z) - z = of_int \<lfloor>z\<rfloor> + 1 - z" by simp
    with a b show ?thesis by linarith
  qed
qed

lemma round_half_even_tie:
  assumes "\<bar>of_int (round_half_even z) - z\<bar> = 1 / 2"
  shows "even (round_half_even z)"
proof -
  have b: "of_int \<lfloor>z\<rfloor> \<le> z" "z < of_int \<lfloor>z\<rfloor> + 1" by linarith+
  from round_half_even_cases [of z] show ?thesis
  proof
    assume a: "round_half_even z = \<lfloor>z\<rfloor> \<and> z - of_int \<lfloor>z\<rfloor> \<le> 1 / 2
      \<and> (z - of_int \<lfloor>z\<rfloor> = 1 / 2 \<longrightarrow> even \<lfloor>z\<rfloor>)"
    then have "of_int (round_half_even z) - z = of_int \<lfloor>z\<rfloor> - z" by simp
    with assms b have "z - of_int \<lfloor>z\<rfloor> = 1 / 2" by linarith
    with a show ?thesis by simp
  next
    assume a: "round_half_even z = \<lfloor>z\<rfloor> + 1 \<and> 1 / 2 \<le> z - of_int \<lfloor>z\<rfloor>
      \<and> (z - of_int \<lfloor>z\<rfloor> = 1 / 2 \<longrightarrow> odd \<lfloor>z\<rfloor>)"
    then have "of_int (round_half_even z) - z = of_int \<lfloor>z\<rfloor> + 1 - z" by simp
    with assms b have "z - of_int \<lfloor>z\<rfloor> = 1 / 2" by linarith
    with a show ?thesis by simp
  qed
qed

lemma expo_bounds:
  assumes "0 < x"
  shows "2 powi expo x \<le> x \<and> x < 2 powi (expo x + 1)"
proof (cases "1 \<le> x")
  case True
  let ?f = "\<lfloor>x\<rfloor>"
  have f: "0 < ?f" using True by simp
  from bitlen_bounds [OF f]
  have lo: "2 ^ nat (bitlen ?f - 1) \<le> ?f" and hi: "?f < 2 ^ nat (bitlen ?f)" by simp_all
  have bl: "1 \<le> bitlen ?f" using f bitlen_eq_zero_iff [of ?f] bitlen_nonneg [of ?f] by linarith
  have e: "expo x = bitlen ?f - 1" using True by (simp add: expo_def)
  have "(2::rat) powi (bitlen ?f - 1) = 2 ^ nat (bitlen ?f - 1)"
    using bl by (simp add: power_int_def)
  also have "\<dots> = of_int (2 ^ nat (bitlen ?f - 1))" by simp
  also have "\<dots> \<le> of_int ?f" using lo by (simp only: of_int_le_iff)
  also have "\<dots> \<le> x" by simp
  finally have l: "2 powi expo x \<le> x" unfolding e .
  have "?f + 1 \<le> 2 ^ nat (bitlen ?f)" using hi by simp
  then have "(of_int (?f + 1) :: rat) \<le> of_int (2 ^ nat (bitlen ?f))"
    by (simp only: of_int_le_iff)
  moreover have "x < of_int (?f + 1)" by simp linarith
  ultimately have "x < of_int (2 ^ nat (bitlen ?f))" by linarith
  also have "\<dots> = 2 powi (bitlen ?f)" using bl by (simp add: power_int_def)
  finally have "x < 2 powi (expo x + 1)" unfolding e by simp
  with l show ?thesis by simp
next
  case False
  then have x1: "x < 1" by simp
  let ?c = "\<lceil>1 / x\<rceil>"
  have inv: "1 < 1 / x" using assms x1 by simp
  then have c2: "2 \<le> ?c" by linarith
  then have c: "0 < ?c - 1" by simp
  let ?n = "bitlen (?c - 1)"
  from bitlen_bounds [OF c]
  have lo: "2 ^ nat (?n - 1) \<le> ?c - 1" and hi: "?c - 1 < 2 ^ nat ?n" by simp_all
  have bl: "1 \<le> ?n"
    using c bitlen_eq_zero_iff [of "?c - 1"] bitlen_nonneg [of "?c - 1"] by linarith
  have e: "expo x = - ?n" using False by (simp add: expo_def)
  have "?c \<le> 2 ^ nat ?n" using hi by simp
  then have "(of_int ?c :: rat) \<le> of_int (2 ^ nat ?n)" by (simp only: of_int_le_iff)
  moreover have "1 / x \<le> of_int ?c" by (rule le_of_int_ceiling)
  moreover have "(of_int (2 ^ nat ?n) :: rat) = 2 ^ nat ?n" by simp
  ultimately have "1 / x \<le> 2 ^ nat ?n" by linarith
  then have "1 \<le> 2 ^ nat ?n * x" using assms by (simp add: field_simps)
  then have "1 / 2 ^ nat ?n \<le> x" by (simp add: field_simps)
  moreover have "(2::rat) powi (- ?n) = 1 / 2 ^ nat ?n"
    using bl by (simp add: power_int_def field_simps)
  ultimately have l: "2 powi expo x \<le> x" unfolding e by simp
  have "(of_int (2 ^ nat (?n - 1)) :: rat) \<le> of_int (?c - 1)"
    using lo by (simp only: of_int_le_iff)
  moreover have "of_int (?c - 1) < 1 / x" by simp linarith
  moreover have "(of_int (2 ^ nat (?n - 1)) :: rat) = 2 ^ nat (?n - 1)" by simp
  ultimately have "2 ^ nat (?n - 1) < 1 / x" by linarith
  then have "2 ^ nat (?n - 1) * x < 1" using assms by (simp add: field_simps)
  then have u: "x < 1 / 2 ^ nat (?n - 1)" by (simp add: field_simps)
  have "(2::rat) powi (- ?n + 1) = 1 / 2 ^ nat (?n - 1)"
  proof (cases "?n = 1")
    case True
    then show ?thesis by simp
  next
    case False
    with bl have "- ?n + 1 < 0" by simp
    moreover have "nat (?n - 1) = nat (- (- ?n + 1))" by simp
    ultimately show ?thesis by (simp add: power_int_def field_simps)
  qed
  with u have "x < 2 powi (expo x + 1)" unfolding e by simp
  with l show ?thesis by simp
qed

lemma ulp_pos: "0 < ulp x"
  by (simp add: ulp_def)

lemma binary64_zero: "binary64 0 = 0"
  by (simp add: binary64_def round_half_even_def)

lemma power_int_two_less_imp:
  assumes "(2::rat) powi a < 2 powi b"
  shows "a < b"
proof (rule ccontr)
  assume "\<not> a < b"
  then have "b \<le> a" by simp
  then have "(2::rat) powi b \<le> 2 powi a" by (intro power_int_increasing) simp_all
  with assms show False by simp
qed

lemma power_int_two_add: "(2::rat) powi (a + b) = 2 powi a * 2 powi b"
  by (simp add: power_int_add)

lemma binary64_fixed:
  assumes y: "y = of_int m * 2 powi j" and m: "\<bar>m\<bar> < 2 ^ 53" and j: "- 1074 \<le> j"
  shows "binary64 y = y"
proof (cases "m = 0")
  case True
  then show ?thesis using y by (simp add: binary64_zero)
next
  case False
  define k where "k = max (expo \<bar>y\<bar>) (- 1022) - 52"
  have ay: "\<bar>y\<bar> = of_int \<bar>m\<bar> * 2 powi j" unfolding y by (simp add: abs_mult)
  have pos: "0 < \<bar>y\<bar>" using False unfolding y by simp
  have "(of_int \<bar>m\<bar> :: rat) < of_int (2 ^ 53)" using m by (simp only: of_int_less_iff)
  then have "of_int \<bar>m\<bar> * 2 powi j < of_int (2 ^ 53) * (2::rat) powi j"
    by (intro mult_strict_right_mono) simp_all
  then have "\<bar>y\<bar> < 2 powi 53 * (2::rat) powi j" unfolding ay by simp
  then have "\<bar>y\<bar> < (2::rat) powi (53 + j)" by (simp only: power_int_two_add)
  moreover have "2 powi expo \<bar>y\<bar> \<le> \<bar>y\<bar>" using expo_bounds [OF pos] by simp
  ultimately have "(2::rat) powi expo \<bar>y\<bar> < 2 powi (53 + j)" by linarith
  then have "expo \<bar>y\<bar> < 53 + j" by (rule power_int_two_less_imp)
  with j have kj: "k \<le> j" unfolding k_def by simp
  define d where "d = nat (j - k)"
  have d: "j = k + int d" using kj by (simp add: d_def)
  have u: "ulp y = 2 powi k" by (simp add: ulp_def k_def)
  have pj: "(2::rat) powi j = 2 powi k * 2 ^ d"
    unfolding d by (simp only: power_int_two_add power_int_of_nat)
  have "y / 2 powi k = of_int m * 2 ^ d"
    using y pj by simp
  then have q: "y / 2 powi k = of_int (m * 2 ^ d)" by simp
  have "binary64 y = of_int (round_half_even (y / ulp y)) * ulp y"
    by (simp only: binary64_def)
  also have "\<dots> = of_int (m * 2 ^ d) * 2 powi k"
    by (simp only: u q round_half_even_of_int)
  also have "\<dots> = of_int m * (2 powi k * 2 ^ d)" by simp
  also have "\<dots> = y" unfolding y pj ..
  finally show ?thesis .
qed

lemma binary64_grid:
  "\<exists>m j. binary64 x = of_int m * 2 powi j \<and> \<bar>m\<bar> < 2 ^ 53 \<and> - 1074 \<le> j"
proof (cases "x = 0")
  case True
  have "binary64 x = of_int 0 * 2 powi 0 \<and> \<bar>0::int\<bar> < 2 ^ 53 \<and> - 1074 \<le> (0::int)"
    using True by (simp add: binary64_zero)
  then show ?thesis by blast
next
  case False
  define k where "k = max (expo \<bar>x\<bar>) (- 1022) - 52"
  define n where "n = round_half_even (x / ulp x)"
  have u: "ulp x = 2 powi k" by (simp add: ulp_def k_def)
  have k: "- 1074 \<le> k" by (simp add: k_def)
  have ek: "expo \<bar>x\<bar> + 1 \<le> k + 53" by (simp add: k_def)
  have pos: "0 < \<bar>x\<bar>" using False by simp
  have "\<bar>x\<bar> < 2 powi (expo \<bar>x\<bar> + 1)" using expo_bounds [OF pos] by simp
  also have "\<dots> \<le> 2 powi (k + 53)" using ek by (intro power_int_increasing) simp_all
  also have "\<dots> = 2 powi k * 2 ^ 53" by (simp only: power_int_two_add) simp
  finally have "\<bar>x\<bar> < ulp x * 2 ^ 53" unfolding u .
  then have "\<bar>x\<bar> / ulp x < 2 ^ 53" using ulp_pos [of x] by (simp add: field_simps)
  then have "\<bar>x / ulp x\<bar> < 2 ^ 53" using ulp_pos [of x] by simp
  then have "of_int (- (2 ^ 53)) \<le> x / ulp x" and "x / ulp x \<le> of_int (2 ^ 53)"
    by (simp_all add: abs_if split: if_splits)
  from round_half_even_bounds [OF this]
  have nb: "- (2 ^ 53) \<le> n" "n \<le> 2 ^ 53" unfolding n_def by simp_all
  have b: "binary64 x = of_int n * 2 powi k" unfolding binary64_def u n_def ..
  have p53: "(2::rat) powi (k + 53) = 2 powi k * 2 ^ 53"
    by (simp only: power_int_two_add) simp
  consider "\<bar>n\<bar> < 2 ^ 53" | "n = 2 ^ 53" | "n = - (2 ^ 53)" using nb by linarith
  then show ?thesis
  proof cases
    case 1
    with b k show ?thesis by blast
  next
    case 2
    have "binary64 x = of_int 1 * 2 powi (k + 53)"
      unfolding b 2 p53 by simp
    moreover have "\<bar>1::int\<bar> < 2 ^ 53" by simp
    moreover have "- 1074 \<le> k + 53" using k by simp
    ultimately show ?thesis by blast
  next
    case 3
    have "binary64 x = of_int (- 1) * 2 powi (k + 53)"
      unfolding b 3 p53 by simp
    moreover have "\<bar>- 1::int\<bar> < 2 ^ 53" by simp
    moreover have "- 1074 \<le> k + 53" using k by simp
    ultimately show ?thesis by blast
  qed
qed

lemma binary64_idem: "binary64 (binary64 x) = binary64 x"
proof -
  from binary64_grid [of x] obtain m j
    where "binary64 x = of_int m * 2 powi j" and "\<bar>m\<bar> < 2 ^ 53" and "- 1074 \<le> j" by blast
  then show ?thesis by (rule binary64_fixed)
qed

lemma binary64_nonneg:
  assumes "0 \<le> x"
  shows "0 \<le> binary64 x"
proof -
  have "of_int 0 \<le> x / ulp x" using assms ulp_pos [of x] by simp
  then have "0 \<le> \<lfloor>x / ulp x\<rfloor>" by simp
  then have "0 \<le> round_half_even (x / ulp x)"
    using round_half_even_lower [of "x / ulp x"] by linarith
  then show ?thesis using ulp_pos [of x] by (simp add: binary64_def)
qed

lemma binary64_one: "binary64 1 = 1"
  using binary64_fixed [of 1 1 0] by simp

lemma binary64_le_one:
  assumes "0 \<le> x" and "x \<le> 1"
  shows "binary64 x \<le> 1"
proof -
  consider "x = 0" | "x = 1" | "0 < x" "x < 1" using assms by linarith
  then show ?thesis
  proof cases
    case 1
    then show ?thesis by (simp add: binary64_zero)
  next
    case 2
    then show ?thesis by (simp add: binary64_one)
  next
    case 3
    define k where "k = max (expo \<bar>x\<bar>) (- 1022) - 52"
    have ax: "\<bar>x\<bar> = x" using 3 by simp
    have "2 powi expo x \<le> x" using expo_bounds [OF 3(1)] by simp
    moreover have "x < 2 powi 0" using 3 by simp
    ultimately have "(2::rat) powi expo x < 2 powi 0" by linarith
    then have "expo x < 0" by (rule power_int_two_less_imp)
    then have k: "k \<le> - 53" unfolding k_def ax by simp
    define d where "d = nat (- k)"
    have d: "k = - int d" using k by (simp add: d_def)
    have u: "ulp x = 1 / 2 ^ d"
      unfolding ulp_def k_def [symmetric] d by (simp add: power_int_minus field_simps)
    have "x / ulp x = x * 2 ^ d" unfolding u by simp
    also have "\<dots> \<le> 1 * 2 ^ d" using 3 by (intro mult_right_mono) simp_all
    finally have "x / ulp x \<le> of_int (2 ^ d)" by simp
    moreover have "of_int 0 \<le> x / ulp x" using 3 ulp_pos [of x] by simp
    ultimately have "round_half_even (x / ulp x) \<le> 2 ^ d"
      using round_half_even_bounds by blast
    then have "(of_int (round_half_even (x / ulp x)) :: rat) \<le> of_int (2 ^ d)"
      by (simp only: of_int_le_iff)
    then have "of_int (round_half_even (x / ulp x)) * ulp x \<le> of_int (2 ^ d) * ulp x"
      using ulp_pos [of x] by (intro mult_right_mono) simp_all
    also have "of_int (2 ^ d) * ulp x = 1" unfolding u by simp
    finally show ?thesis by (simp add: binary64_def)
  qed
qed

lemma binary64_nearest: "\<bar>binary64 x - x\<bar> \<le> ulp x / 2"
proof -
  have u: "0 < ulp x" by (rule ulp_pos)
  have "binary64 x - x = (of_int (round_half_even (x / ulp x)) - x / ulp x) * ulp x"
    using u by (simp add: binary64_def field_simps)
  then have "\<bar>binary64 x - x\<bar> = \<bar>of_int (round_half_even (x / ulp x)) - x / ulp x\<bar> * ulp x"
    using u by (simp add: abs_mult)
  also have "\<dots> \<le> 1 / 2 * ulp x"
    using round_half_even_nearest [of "x / ulp x"] u by (intro mult_right_mono) simp_all
  finally show ?thesis by simp
qed

lemma binary64_unit:
  assumes "0 \<le> x" and "x \<le> 1"
  shows "0 \<le> binary64 x \<and> binary64 x \<le> 1"
  using assms binary64_nonneg binary64_le_one by blast

section \<open>Properties of the quality scorer\<close>

lemma fadd_zero_right: "fadd (fadd a b) 0 = fadd a b"
  by (simp add: fadd_def binary64_idem)

lemma fadd_nonneg: "0 \<le> a \<Longrightarrow> 0 \<le> b \<Longrightarrow> 0 \<le> fadd a b"
  by (simp add: fadd_def binary64_nonneg)

lemma fmul_nonneg: "0 \<le> a \<Longrightarrow> 0 \<le> b \<Longrightarrow> 0 \<le> fmul a b"
  by (simp add: fmul_def binary64_nonneg)

lemma int_to_float_nonneg: "0 \<le> n \<Longrightarrow> 0 \<le> int_to_float n"
  by (simp add: int_to_float_def binary64_nonneg)

lemma literals_nonneg:
  "0 \<le> binary64 (1 / 10)" "0 \<le> binary64 (3 / 10)" "0 \<le> binary64 (6 / 100)"
  "0 \<le> binary64 (2 / 100)"
  by (simp_all add: binary64_nonneg)

lemma anon_get_eq_spec:
  "dict_get anon_scores (or_empty (anonymity p)) 0 = spec_anonymity p"
  by (cases "anonymity p")
    (auto simp: dict_get_def anon_scores_def or_empty_def spec_anonymity_def)

lemma spec_verified_none:
  assumes "verified_targets p = None \<or> verified_targets p = Some []"
  shows "spec_verified p = 0"
proof -
  have "verified_target_count p = 0"
    using assms by (auto simp: verified_target_count_def)
  then have "spec_verified p = min 0 (binary64 (1 / 10))"
    by (simp add: spec_verified_def int_to_float_def fmul_def binary64_zero)
  then show ?thesis using literals_nonneg by simp
qed

lemma compute_quality_score_eq_spec: "compute_quality_score p = spec_quality_score p"
proof -
  define s1 where "s1 = fadd 0 (spec_corroboration p)"
  define s2 where "s2 = fadd s1 (spec_reliability p)"
  define s3 where "s3 = fadd s2 (spec_speed p)"
  define s4 where "s4 = fadd s3 (spec_anonymity p)"
  define s5 where "s5 = fadd s4 (spec_verified p)"
  have c2: "(case reliability p of
               None \<Rightarrow> s1
             | Some r \<Rightarrow> fadd s1 (fmul r (binary64 (3 / 10)))) = s2"
    by (cases "reliability p")
      (simp_all add: s2_def spec_reliability_def s1_def fadd_zero_right)
  have c3: "(case speed_ms p of
               None \<Rightarrow> s2
             | Some s \<Rightarrow>
                 if 0 < s
                 then fadd s2 (max 0 (fsub (binary64 (2 / 10)) (fdiv s (int_to_float 25000))))
                 else s2) = s3"
    by (cases "speed_ms p")
      (simp_all add: s3_def spec_speed_def s2_def fadd_zero_right)
  have c5: "(case verified_targets p of
               None \<Rightarrow> s4
             | Some vt \<Rightarrow>
                 if vt \<noteq> []
                 then fadd s4 (min (fmul (int_to_float (int (length vt))) (binary64 (2 / 100)))
                                   (binary64 (1 / 10)))
                 else s4) = s5"
  proof (cases "verified_targets p")
    case None
    then have "spec_verified p = 0" by (simp add: spec_verified_none)
    with None show ?thesis by (simp add: s5_def s4_def fadd_zero_right)
  next
    case (Some vt)
    show ?thesis
    proof (cases "vt = []")
      case True
      with Some have "spec_verified p = 0" by (simp add: spec_verified_none)
      with Some True show ?thesis by (simp add: s5_def s4_def fadd_zero_right)
    next
      case False
      with Some show ?thesis
        by (simp add: s5_def spec_verified_def verified_target_count_def)
    qed
  qed
  have "compute_quality_score p = py_round (min s5 1) 3"
    unfolding compute_quality_score_def Let_def anon_get_eq_spec
    unfolding spec_corroboration_def [symmetric] s1_def [symmetric] c2
      c3 s4_def [symmetric] c5 ..
  moreover have "spec_sum p = s5"
    by (simp add: spec_sum_def s5_def s4_def s3_def s2_def s1_def)
  ultimately show ?thesis by (simp add: spec_quality_score_def)
qed

lemma spec_sum_nonneg:
  assumes "0 \<le> source_count p" and "reliability_in_unit p"
  shows "0 \<le> spec_sum p"
proof -
  have a: "0 \<le> spec_corroboration p"
    using assms(1) literals_nonneg
    by (simp add: spec_corroboration_def fmul_nonneg int_to_float_nonneg)
  have b: "0 \<le> spec_reliability p"
    using assms(2) literals_nonneg
    by (simp add: spec_reliability_def reliability_in_unit_def fmul_nonneg
        split: option.splits)
  have c: "0 \<le> spec_speed p" by (simp add: spec_speed_def split: option.splits)
  have d: "0 \<le> spec_anonymity p"
    using literals_nonneg
    by (simp add: spec_anonymity_def)
  have e: "0 \<le> spec_verified p"
    using literals_nonneg
    by (simp add: spec_verified_def fmul_nonneg int_to_float_nonneg)
  have "0 \<le> fadd 0 (spec_corroboration p)" using a by (simp add: fadd_nonneg)
  then have "0 \<le> fadd (fadd 0 (spec_corroboration p)) (spec_reliability p)"
    using b by (rule fadd_nonneg)
  then have "0 \<le> fadd (fadd (fadd 0 (spec_corroboration p)) (spec_reliability p)) (spec_speed p)"
    using c by (rule fadd_nonneg)
  then have "0 \<le> fadd (fadd (fadd (fadd 0 (spec_corroboration p)) (spec_reliability p))
                      (spec_speed p)) (spec_anonymity p)"
    using d by (rule fadd_nonneg)
  then have "0 \<le> fadd (fadd (fadd (fadd (fadd 0 (spec_corroboration p)) (spec_reliability p))
                      (spec_speed p)) (spec_anonymity p)) (spec_verified p)"
    using e by (rule fadd_nonneg)
  then show ?thesis by (simp add: spec_sum_def)
qed

lemma py_round_3_decimal:
  assumes "0 \<le> x" and "x \<le> 1"
  shows "\<exists>k. 0 \<le> k \<and> k \<le> 1000 \<and> py_round x 3 = binary64 (of_int k / 1000)
           \<and> \<bar>of_int k / 1000 - x\<bar> \<le> 1 / 2000
           \<and> (\<bar>of_int k / 1000 - x\<bar> = 1 / 2000 \<longrightarrow> even k)"
proof -
  define k where "k = round_half_even (x * 1000)"
  have lo: "of_int 0 \<le> x * 1000" using assms(1) by simp
  have hi: "x * 1000 \<le> of_int 1000" using assms(2) by simp
  from round_half_even_bounds [OF lo hi] have kb: "0 \<le> k" "k \<le> 1000"
    unfolding k_def by simp_all
  have p: "py_round x 3 = binary64 (of_int k / 1000)"
    by (simp add: py_round_def k_def)
  have d: "\<bar>of_int k / 1000 - x\<bar> = \<bar>of_int k - x * 1000\<bar> / 1000"
    by (simp add: abs_if field_simps)
  have n: "\<bar>of_int k - x * 1000\<bar> \<le> 1 / 2"
    unfolding k_def by (rule round_half_even_nearest)
  have near: "\<bar>of_int k / 1000 - x\<bar> \<le> 1 / 2000" unfolding d using n by simp
  have tie: "even k" if "\<bar>of_int k / 1000 - x\<bar> = 1 / 2000"
  proof -
    from that have "\<bar>of_int k - x * 1000\<bar> = 1 / 2" unfolding d by simp
    then show ?thesis unfolding k_def by (rule round_half_even_tie)
  qed
  from kb p near tie show ?thesis by blast
qed

lemma py_round_3_unit:
  assumes "0 \<le> x" and "x \<le> 1"
  shows "0 \<le> py_round x 3 \<and> py_round x 3 \<le> 1"
proof -
  from py_round_3_decimal [OF assms] obtain k
    where k: "0 \<le> k" "k \<le> 1000" and p: "py_round x 3 = binary64 (of_int k / 1000)"
    by blast
  have "(0::rat) \<le> of_int k" using k(1) by simp
  moreover have "(of_int k :: rat) \<le> of_int 1000" using k(2) by (simp only: of_int_le_iff)
  ultimately have "(0::rat) \<le> of_int k / 1000" and "(of_int k :: rat) / 1000 \<le> 1"
    by simp_all
  then show ?thesis unfolding p by (rule binary64_unit)
qed

text \<open>
  Claim C1. For every Canonical Proxy Record whose reliability, when present, lies in
  \<open>[0, 1]\<close>, \<open>compute_quality_score\<close> returns \<open>round(min(S, 1.0), 3)\<close>, where \<open>S\<close> is
  the sum of the five contributions (source corroboration, reliability, speed, anonymity,
  verified targets): the returned value is the float of a multiple \<open>k/1000\<close> that is
  nearest to \<open>min(S, 1.0)\<close>, with even \<open>k\<close> on a tie, and it lies in \<open>[0, 1]\<close>.
\<close>

theorem compute_quality_score_formula_and_range:
  assumes "canonical_record p" and "reliability_in_unit p"
  shows "compute_quality_score p = py_round (min (spec_sum p) 1) 3
     \<and> (\<exists>k. 0 \<le> k \<and> k \<le> 1000
           \<and> compute_quality_score p = binary64 (of_int k / 1000)
           \<and> \<bar>of_int k / 1000 - min (spec_sum p) 1\<bar> \<le> 1 / 2000
           \<and> (\<bar>of_int k / 1000 - min (spec_sum p) 1\<bar> = 1 / 2000 \<longrightarrow> even k))
     \<and> 0 \<le> compute_quality_score p \<and> compute_quality_score p \<le> 1"
proof -
  have eq: "compute_quality_score p = py_round (min (spec_sum p) 1) 3"
    by (simp add: compute_quality_score_eq_spec spec_quality_score_def)
  have "0 \<le> source_count p" using assms(1) by (simp add: canonical_record_def)
  then have "0 \<le> spec_sum p" using assms(2) by (rule spec_sum_nonneg)
  then have lo: "0 \<le> min (spec_sum p) 1" and hi: "min (spec_sum p) 1 \<le> 1" by simp_all
  from py_round_3_decimal [OF lo hi] py_round_3_unit [OF lo hi] show ?thesis
    unfolding eq by blast
qed

lemma tie_reliability_score: "compute_quality_score tie_reliability = binary64 (311 / 1000)"
  by code_simp

lemma tie_speed_score: "compute_quality_score tie_speed = binary64 (299 / 1000)"
  by code_simp

lemma tie_reliability_in_unit: "reliability_in_unit tie_reliability"
  by code_simp

lemma example_scored_score: "compute_quality_score example_scored = binary64 (787 / 1000)"
  by code_simp

lemma binary64_tenth: "binary64 (1 / 10) = 3602879701896397 / 36028797018963968"
  by code_simp

lemma py_round_exact_ties:
  "py_round (1 / 16) 3 = binary64 (62 / 1000) \<and> py_round (3 / 16) 3 = binary64 (188 / 1000)"
  by code_simp

theorem compute_quality_score_formula_and_range_witness:
  "canonical_record tie_reliability \<and> reliability_in_unit tie_reliability
   \<and> compute_quality_score tie_reliability = binary64 (311 / 1000)
   \<and> 0 \<le> compute_quality_score tie_reliability \<and> compute_quality_score tie_reliability \<le> 1
   \<and> canonical_record tie_speed \<and> reliability_in_unit tie_speed
   \<and> compute_quality_score tie_speed = binary64 (299 / 1000)
   \<and> 0 \<le> compute_quality_score tie_speed \<and> compute_quality_score tie_speed \<le> 1"
proof -
  have c1: "canonical_record tie_reliability"
    by (simp add: canonical_record_def tie_reliability_def raw_record_def)
  have r1: "reliability_in_unit tie_reliability" by (rule tie_reliability_in_unit)
  have c2: "canonical_record tie_speed"
    by (simp add: canonical_record_def tie_speed_def raw_record_def)
  have r2: "reliability_in_unit tie_speed"
    by (simp add: reliability_in_unit_def tie_speed_def raw_record_def)
  from compute_quality_score_formula_and_range [OF c1 r1]
  have b1: "0 \<le> compute_quality_score tie_reliability \<and> compute_quality_score tie_reliability \<le> 1"
    by (elim conjE) (rule conjI)
  from compute_quality_score_formula_and_range [OF c2 r2]
  have b2: "0 \<le> compute_quality_score tie_speed \<and> compute_quality_score tie_speed \<le> 1"
    by (elim conjE) (rule conjI)
  from c1 r1 tie_reliability_score b1 c2 r2 tie_speed_score b2 show ?thesis by simp
qed

section \<open>Properties of the merge engine\<close>

lemma build_groups_snoc: "build_groups (ps @ [p]) = groups_append (build_groups ps) p"
  by (simp add: build_groups_def)

lemma groups_append_keys:
  "map fst (groups_append gs p) =
     (if proxy_key p \<in> set (map fst gs) then map fst gs else map fst gs @ [proxy_key p])"
  by (induction gs p rule: groups_append.induct) auto

lemma groups_append_map_of:
  "map_of (groups_append gs p) k =
     (if k = proxy_key p
      then Some ((case map_of gs k of None \<Rightarrow> [] | Some g \<Rightarrow> g) @ [p])
      else map_of gs k)"
  by (induction gs p rule: groups_append.induct) auto

lemma build_groups_keys_set: "set (map fst (build_groups ps)) = proxy_key ` set ps"
proof (induction ps rule: rev_induct)
  case Nil
  show ?case by (simp add: build_groups_def)
next
  case (snoc p ps)
  then show ?case
    unfolding build_groups_snoc groups_append_keys by auto
qed

lemma build_groups_keys_distinct: "distinct (map fst (build_groups ps))"
proof (induction ps rule: rev_induct)
  case Nil
  show ?case by (simp add: build_groups_def)
next
  case (snoc p ps)
  then show ?case
    unfolding build_groups_snoc groups_append_keys by auto
qed

lemma group_of_no_key: "k \<notin> proxy_key ` set ps \<Longrightarrow> group_of k ps = []"
  by (induction ps) (auto simp: group_of_def)

lemma group_of_snoc:
  "group_of k (ps @ [p]) = (if proxy_key p = k then group_of k ps @ [p] else group_of k ps)"
  by (simp add: group_of_def)

lemma build_groups_map_of:
  "map_of (build_groups ps) k =
     (if k \<in> proxy_key ` set ps then Some (group_of k ps) else None)"
proof (induction ps rule: rev_induct)
  case Nil
  show ?case by (simp add: build_groups_def)
next
  case (snoc p ps)
  show ?case
  proof (cases "k = proxy_key p")
    case True
    have "(case map_of (build_groups ps) k of None \<Rightarrow> [] | Some g \<Rightarrow> g) = group_of k ps"
      using snoc.IH by (simp add: group_of_no_key)
    with True show ?thesis
      by (simp add: build_groups_snoc groups_append_map_of group_of_snoc)
  next
    case False
    then have "proxy_key p \<noteq> k" by simp
    with False show ?thesis
      using snoc.IH by (simp add: build_groups_snoc groups_append_map_of group_of_snoc)
  qed
qed

lemma build_groups_member:
  assumes "(k, g) \<in> set (build_groups ps)"
  shows "g = group_of k ps \<and> g \<noteq> [] \<and> k \<in> proxy_key ` set ps"
proof -
  have "map_of (build_groups ps) k = Some g"
    using assms build_groups_keys_distinct [of ps] by simp
  then have k: "k \<in> proxy_key ` set ps" and g: "g = group_of k ps"
    by (simp_all add: build_groups_map_of split: if_splits)
  from k obtain p where "p \<in> set ps" and "proxy_key p = k" by auto
  then have "p \<in> set (group_of k ps)" by (simp add: group_of_def)
  then have "group_of k ps \<noteq> []" by auto
  with k g show ?thesis by simp
qed

lemma first_index_snoc_old:
  "a \<in> set ks \<Longrightarrow> first_index a (ks @ [b]) = first_index a ks"
  by (simp add: first_index_def takeWhile_append1)

lemma first_index_less: "a \<in> set ks \<Longrightarrow> first_index a ks < length ks"
  by (induction ks) (auto simp: first_index_def)

lemma first_index_snoc_new:
  assumes "b \<notin> set ks"
  shows "first_index b (ks @ [b]) = length ks"
proof -
  have "takeWhile (\<lambda>x. x \<noteq> b) (ks @ [b]) = ks @ takeWhile (\<lambda>x. x \<noteq> b) [b]"
    by (rule takeWhile_append2) (use assms in auto)
  then show ?thesis by (simp add: first_index_def)
qed

lemma build_groups_keys_order:
  "sorted_wrt (\<lambda>a b. first_index a (map proxy_key ps) < first_index b (map proxy_key ps))
     (map fst (build_groups ps))"
proof (induction ps rule: rev_induct)
  case Nil
  show ?case by (simp add: build_groups_def)
next
  case (snoc p ps)
  let ?ks = "map proxy_key ps"
  let ?gk = "map fst (build_groups ps)"
  have sub: "set ?gk = set ?ks" using build_groups_keys_set [of ps] by simp
  have old: "sorted_wrt (\<lambda>a b. first_index a (?ks @ [proxy_key p]) < first_index b (?ks @ [proxy_key p])) ?gk"
    using snoc.IH
  proof (rule sorted_wrt_mono_rel [rotated])
    fix x y
    assume "x \<in> set ?gk" and "y \<in> set ?gk"
      and "first_index x ?ks < first_index y ?ks"
    then show "first_index x (?ks @ [proxy_key p]) < first_index y (?ks @ [proxy_key p])"
      using sub by (simp add: first_index_snoc_old)
  qed
  show ?case
  proof (cases "proxy_key p \<in> set ?gk")
    case True
    then show ?thesis
      using old by (simp add: build_groups_snoc groups_append_keys)
  next
    case False
    then have new: "proxy_key p \<notin> set ?ks" using sub by simp
    have "\<forall>a\<in>set ?gk. first_index a (?ks @ [proxy_key p]) < first_index (proxy_key p) (?ks @ [proxy_key p])"
      using sub first_index_less [of _ ?ks] 
      by (simp add: first_index_snoc_new [OF new] first_index_snoc_old)
    with False old show ?thesis
      by (simp add: build_groups_snoc groups_append_keys sorted_wrt_append)
  qed
qed


lemma anon_rank_nonneg: "0 \<le> anon_rank a"
  by (simp add: anon_rank_def dict_get_def anon_rank_table_def)

lemma anon_rank_falsy: "\<not> truthy a \<Longrightarrow> anon_rank a = 0"
  by (cases a) (simp_all add: truthy_def anon_rank_def dict_get_def anon_rank_table_def or_empty_def)

lemma anon_rank_values:
  "anon_rank (Some ''elite'') = 3 \<and> anon_rank (Some ''anonymous'') = 2
   \<and> anon_rank (Some ''transparent'') = 1 \<and> anon_rank None = 0"
  by (simp add: anon_rank_def dict_get_def anon_rank_table_def or_empty_def)

lemma min_observed_Cons2: "min_observed (x # y # xs) = min_observed (min x y # xs)"
  by (cases "xs = []") (simp_all add: min_observed_def min.assoc)

lemma max_observed_Cons2: "max_observed (x # y # xs) = max_observed (max x y # xs)"
  by (cases "xs = []") (simp_all add: max_observed_def max.assoc)

lemma merge_fold_speed:
  "fst (foldl merge_step (bs, br, ba) g) = min_observed (opt_list bs @ List.map_filter speed_ms g)"
proof (induction g arbitrary: bs br ba)
  case Nil
  show ?case by (cases bs) (simp_all add: opt_list_def min_observed_def map_filter_simps)
next
  case (Cons p g)
  show ?case
  proof (cases "speed_ms p")
    case None
    then show ?thesis by (simp add: Cons.IH map_filter_simps Let_def)
  next
    case (Some s)
    show ?thesis
    proof (cases bs)
      case None
      with Some show ?thesis by (simp add: Cons.IH map_filter_simps Let_def opt_list_def)
    next
      case (Some b)
      have "(if s < b then Some s else Some b) = Some (min b s)" by (simp add: min_def)
      with Some \<open>speed_ms p = Some s\<close> show ?thesis
        by (simp add: Cons.IH map_filter_simps Let_def opt_list_def min_observed_Cons2)
    qed
  qed
qed

lemma merge_fold_reliability:
  "fst (snd (foldl merge_step (bs, br, ba) g)) =
     max_observed (opt_list br @ List.map_filter reliability g)"
proof (induction g arbitrary: bs br ba)
  case Nil
  show ?case by (cases br) (simp_all add: opt_list_def max_observed_def map_filter_simps)
next
  case (Cons p g)
  show ?case
  proof (cases "reliability p")
    case None
    then show ?thesis by (simp add: Cons.IH map_filter_simps Let_def)
  next
    case (Some r)
    show ?thesis
    proof (cases br)
      case None
      with Some show ?thesis by (simp add: Cons.IH map_filter_simps Let_def opt_list_def)
    next
      case (Some b)
      have "(if b < r then Some r else Some b) = Some (max b r)" by (simp add: max_def)
      with Some \<open>reliability p = Some r\<close> show ?thesis
        by (simp add: Cons.IH map_filter_simps Let_def opt_list_def max_observed_Cons2)
    qed
  qed
qed

lemma merge_fold_anonymity:
  "snd (snd (foldl merge_step (bs, br, ba) g)) \<in> insert ba (anonymity ` set g)
   \<and> anon_rank ba \<le> anon_rank (snd (snd (foldl merge_step (bs, br, ba) g)))
   \<and> (\<forall>p\<in>set g. anon_rank (anonymity p) \<le> anon_rank (snd (snd (foldl merge_step (bs, br, ba) g))))"
proof (induction g arbitrary: bs br ba)
  case Nil
  show ?case by simp
next
  case (Cons p g)
  obtain bs' br' ba' where step: "merge_step (bs, br, ba) p = (bs', br', ba')"
    by (metis prod_cases3)
  let ?res = "snd (snd (foldl merge_step (bs', br', ba') g))"
  have ba': "ba' = (if truthy (anonymity p) \<and> (ba = None \<or> anon_rank ba < anon_rank (anonymity p))
                   then anonymity p else ba)"
    using step by (simp add: Let_def)
  have mem: "ba' \<in> {ba, anonymity p}" using ba' by simp
  have up1: "anon_rank ba \<le> anon_rank ba'"
    using ba' anon_rank_nonneg [of "anonymity p"] anon_rank_values by (auto split: if_splits)
  have up2: "anon_rank (anonymity p) \<le> anon_rank ba'"
    using ba' anon_rank_falsy [of "anonymity p"] anon_rank_nonneg [of ba]
    by (auto split: if_splits)
  from Cons.IH [of bs' br' ba']
  have ih1: "?res \<in> insert ba' (anonymity ` set g)"
    and ih2: "anon_rank ba' \<le> anon_rank ?res"
    and ih3: "\<forall>q\<in>set g. anon_rank (anonymity q) \<le> anon_rank ?res"
    by simp_all
  have res: "snd (snd (foldl merge_step (bs, br, ba) (p # g))) = ?res"
    using step by simp
  have "?res \<in> insert ba (anonymity ` set (p # g))" using ih1 mem by auto
  moreover have "anon_rank ba \<le> anon_rank ?res" using up1 ih2 by linarith
  moreover have "\<forall>q\<in>set (p # g). anon_rank (anonymity q) \<le> anon_rank ?res"
    using up2 ih2 ih3 by auto
  ultimately show ?case unfolding res by blast
qed

lemma compute_quality_score_ignores_score:
  "compute_quality_score (p\<lparr>quality_score := q\<rparr>) = compute_quality_score p"
  by (simp add: compute_quality_score_def)

lemma merge_group_fields:
  assumes "g \<noteq> []"
  shows "\<exists>m. merge_group g = Inr m
     \<and> ip m = ip (hd g) \<and> port m = port (hd g) \<and> protocol m = protocol (hd g)
     \<and> country m = country (hd g) \<and> proxy_url m = proxy_url (hd g)
     \<and> city m = None \<and> verified_targets m = None
     \<and> source_count m = int (length g)
     \<and> speed_ms m = min_observed (List.map_filter speed_ms g)
     \<and> reliability m = max_observed (List.map_filter reliability g)
     \<and> anonymity m \<in> anonymity ` set g
     \<and> (\<forall>p\<in>set g. anon_rank (anonymity p) \<le> anon_rank (anonymity m))
     \<and> quality_score m = compute_quality_score m"
proof -
  from assms obtain base rest where g: "g = base # rest" by (cases g) auto
  obtain bs br ba where f: "foldl merge_step (None, None, anonymity base) g = (bs, br, ba)"
    by (metis prod_cases3)
  have bs: "bs = min_observed (List.map_filter speed_ms g)"
    using merge_fold_speed [of None None "anonymity base" g] f by (simp add: opt_list_def)
  have br: "br = max_observed (List.map_filter reliability g)"
    using merge_fold_reliability [of None None "anonymity base" g] f by (simp add: opt_list_def)
  have ba1: "ba \<in> anonymity ` set g"
    using merge_fold_anonymity [of None None "anonymity base" g] f g by auto
  have ba2: "\<forall>p\<in>set g. anon_rank (anonymity p) \<le> anon_rank ba"
    using merge_fold_anonymity [of None None "anonymity base" g] f by simp
  let ?proxy = "\<lparr>ip = ip base, port = port base, protocol = protocol base,
                   anonymity = ba, country = country base, city = None,
                   proxy_url = proxy_url base, speed_ms = bs,
                   reliability = br, source_count = int (length g),
                   quality_score = 0, verified_targets = None\<rparr>"
  have m: "merge_group g = Inr (?proxy\<lparr>quality_score := compute_quality_score ?proxy\<rparr>)"
    using f unfolding g by (simp add: Let_def)
  have q: "quality_score (?proxy\<lparr>quality_score := compute_quality_score ?proxy\<rparr>)
      = compute_quality_score (?proxy\<lparr>quality_score := compute_quality_score ?proxy\<rparr>)"
    by (simp add: compute_quality_score_def)
  show ?thesis
    unfolding m using bs br ba1 ba2 g q by simp
qed


lemma merge_groups_total:
  assumes "\<forall>kg\<in>set gs. snd kg \<noteq> []"
  shows "\<exists>ms. merge_groups gs = Inr ms
           \<and> list_all2 (\<lambda>kg m. merge_group (snd kg) = Inr m) gs ms"
  using assms
proof (induction gs)
  case Nil
  show ?case by simp
next
  case (Cons kg gs)
  obtain k g where kg: "kg = (k, g)" by (cases kg)
  from Cons.prems kg have "g \<noteq> []" by simp
  then obtain m where m: "merge_group g = Inr m" using merge_group_fields by blast
  from Cons obtain ms where ms: "merge_groups gs = Inr ms"
    and rel: "list_all2 (\<lambda>kg m. merge_group (snd kg) = Inr m) gs ms" by auto
  have "merge_groups (kg # gs) = Inr (m # ms)" using kg m ms by simp
  moreover have "list_all2 (\<lambda>kg m. merge_group (snd kg) = Inr m) (kg # gs) (m # ms)"
    using kg m rel by simp
  ultimately show ?case by blast
qed

lemma group_of_key: "p \<in> set (group_of k ps) \<Longrightarrow> proxy_key p = k"
  by (simp add: group_of_def)

lemma merge_group_key:
  assumes "g \<noteq> []" and "\<forall>p\<in>set g. proxy_key p = k" and "merge_group g = Inr m"
  shows "proxy_key m = k"
proof -
  from merge_group_fields [OF assms(1)] assms(3)
  have "ip m = ip (hd g)" and "port m = port (hd g)" by auto
  moreover have "proxy_key (hd g) = k" using assms(1,2) by simp
  ultimately show ?thesis by (simp add: proxy_key_def)
qed

lemma merge_structure:
  "\<exists>ms. merge_and_deduplicate ps = Inr (sort_by_quality_desc ms)
     \<and> map proxy_key ms = map fst (build_groups ps)
     \<and> (\<forall>m\<in>set ms. group_of (proxy_key m) ps \<noteq> []
           \<and> merge_group (group_of (proxy_key m) ps) = Inr m)"
proof -
  let ?gs = "build_groups ps"
  have ne: "\<forall>kg\<in>set ?gs. snd kg \<noteq> []"
    using build_groups_member [of _ _ ps] by auto
  from merge_groups_total [OF ne] obtain ms where ms: "merge_groups ?gs = Inr ms"
    and rel: "list_all2 (\<lambda>kg m. merge_group (snd kg) = Inr m) ?gs ms" by blast
  have rel': "list_all2 (\<lambda>kg m. proxy_key m = fst kg \<and> group_of (proxy_key m) ps \<noteq> []
                  \<and> merge_group (group_of (proxy_key m) ps) = Inr m) ?gs ms"
    using rel
  proof (rule list.rel_mono_strong)
    fix kg m
    assume mem: "kg \<in> set ?gs" and mg: "merge_group (snd kg) = Inr m"
    obtain k g where kg: "kg = (k, g)" by (cases kg)
    have "(k, g) \<in> set ?gs" using mem kg by simp
    from build_groups_member [OF this]
    have g: "g = group_of k ps" and gne: "g \<noteq> []" by blast+
    have "proxy_key m = k"
      using merge_group_key [OF gne _ ] mg kg g group_of_key by auto
    with g gne mg kg
    show "proxy_key m = fst kg \<and> group_of (proxy_key m) ps \<noteq> []
            \<and> merge_group (group_of (proxy_key m) ps) = Inr m" by simp
  qed
  have keys: "map proxy_key ms = map fst ?gs"
    using rel' by (induction rule: list_all2_induct) simp_all
  have each: "\<forall>m\<in>set ms. group_of (proxy_key m) ps \<noteq> []
                 \<and> merge_group (group_of (proxy_key m) ps) = Inr m"
    using rel' by (induction rule: list_all2_induct) auto
  have "merge_and_deduplicate ps = Inr (sort_by_quality_desc ms)"
    by (simp add: merge_and_deduplicate_def ms)
  with keys each show ?thesis by blast
qed


lemma sort_by_quality_desc_set: "set (sort_by_quality_desc ms) = set ms"
  by (simp add: sort_by_quality_desc_def)

lemma sort_by_quality_desc_distinct_keys:
  "distinct (map proxy_key (sort_by_quality_desc ms)) = distinct (map proxy_key ms)"
  by (simp add: sort_by_quality_desc_def distinct_map)

lemma merged_keys_image:
  assumes "map proxy_key ms = map fst (build_groups ps)"
  shows "proxy_key ` set ms = proxy_key ` set ps"
proof -
  have "proxy_key ` set ms = set (map proxy_key ms)" by simp
  also have "\<dots> = set (map fst (build_groups ps))" using assms by simp
  also have "\<dots> = proxy_key ` set ps" by (rule build_groups_keys_set)
  finally show ?thesis .
qed

text \<open>
  Claim C2. Every record of the merged output is the reconciliation of the group of raw
  records that share its (address, port), and every (address, port) of the input has one:
  \<open>source_count\<close> is the group size, the speed is the minimum of the speeds present,
  the reliability the maximum of the reliabilities present (absent if none is present),
  the anonymity is a tag of the group that no tag of the group outranks under
  elite > anonymous > transparent > absent, and protocol, country, address, port and
  proxy_url are those of the first record of the group.
\<close>

theorem merge_reconciles_each_group:
  "\<exists>merged. merge_and_deduplicate all_proxies = Inr merged
     \<and> proxy_key ` set merged = proxy_key ` set all_proxies
     \<and> (\<forall>m\<in>set merged. \<exists>first rest.
            group_of (proxy_key m) all_proxies = first # rest
          \<and> source_count m = int (length (first # rest))
          \<and> speed_ms m = min_observed (List.map_filter speed_ms (first # rest))
          \<and> reliability m = max_observed (List.map_filter reliability (first # rest))
          \<and> anonymity m \<in> anonymity ` set (first # rest)
          \<and> (\<forall>p\<in>set (first # rest). anon_rank (anonymity p) \<le> anon_rank (anonymity m))
          \<and> protocol m = protocol first \<and> country m = country first
          \<and> ip m = ip first \<and> port m = port first \<and> proxy_url m = proxy_url first)
     \<and> anon_rank None < anon_rank (Some ''transparent'')
     \<and> anon_rank (Some ''transparent'') < anon_rank (Some ''anonymous'')
     \<and> anon_rank (Some ''anonymous'') < anon_rank (Some ''elite'')"
proof -
  from merge_structure [of all_proxies] obtain ms
    where out: "merge_and_deduplicate all_proxies = Inr (sort_by_quality_desc ms)"
      and keys: "map proxy_key ms = map fst (build_groups all_proxies)"
      and each: "\<forall>m\<in>set ms. group_of (proxy_key m) all_proxies \<noteq> []
                   \<and> merge_group (group_of (proxy_key m) all_proxies) = Inr m"
    by blast
  let ?merged = "sort_by_quality_desc ms"
  have img: "proxy_key ` set ?merged = proxy_key ` set all_proxies"
    using merged_keys_image [OF keys] by (simp add: sort_by_quality_desc_set)
  have fields: "\<exists>first rest.
            group_of (proxy_key m) all_proxies = first # rest
          \<and> source_count m = int (length (first # rest))
          \<and> speed_ms m = min_observed (List.map_filter speed_ms (first # rest))
          \<and> reliability m = max_observed (List.map_filter reliability (first # rest))
          \<and> anonymity m \<in> anonymity ` set (first # rest)
          \<and> (\<forall>p\<in>set (first # rest). anon_rank (anonymity p) \<le> anon_rank (anonymity m))
          \<and> protocol m = protocol first \<and> country m = country first
          \<and> ip m = ip first \<and> port m = port first \<and> proxy_url m = proxy_url first"
    if "m \<in> set ?merged" for m
  proof -
    let ?g = "group_of (proxy_key m) all_proxies"
    from that have "m \<in> set ms" by (simp add: sort_by_quality_desc_set)
    with each have ne: "?g \<noteq> []" and mg: "merge_group ?g = Inr m" by simp_all
    from ne obtain first rest where g: "?g = first # rest" by (cases ?g) auto
    from merge_group_fields [OF ne] mg g show ?thesis by auto
  qed
  from out img fields anon_rank_values show ?thesis by simp
qed

lemma reliability_example_order: "binary64 (6 / 10) \<le> binary64 (9 / 10)"
  by code_simp

theorem merge_reconciles_each_group_witness:
  "\<exists>merged. merge_and_deduplicate [raw_a1, raw_b, raw_a2] = Inr merged
     \<and> (\<exists>m\<in>set merged. proxy_key m = (''1.1.1.1'', 80) \<and> source_count m = 2
           \<and> speed_ms m = Some 80 \<and> reliability m = Some (binary64 (9 / 10))
           \<and> anonymity m = Some ''elite'' \<and> protocol m = ''http''
           \<and> proxy_url m = ''http://1.1.1.1:80'')"
proof -
  let ?ps = "[raw_a1, raw_b, raw_a2]"
  from merge_reconciles_each_group [of ?ps] obtain merged
    where out: "merge_and_deduplicate ?ps = Inr merged"
      and img: "proxy_key ` set merged = proxy_key ` set ?ps"
      and fields: "\<forall>m\<in>set merged. \<exists>first rest.
            group_of (proxy_key m) ?ps = first # rest
          \<and> source_count m = int (length (first # rest))
          \<and> speed_ms m = min_observed (List.map_filter speed_ms (first # rest))
          \<and> reliability m = max_observed (List.map_filter reliability (first # rest))
          \<and> anonymity m \<in> anonymity ` set (first # rest)
          \<and> (\<forall>p\<in>set (first # rest). anon_rank (anonymity p) \<le> anon_rank (anonymity m))
          \<and> protocol m = protocol first \<and> country m = country first
          \<and> ip m = ip first \<and> port m = port first \<and> proxy_url m = proxy_url first"
    by blast
  have "(''1.1.1.1'', 80) \<in> proxy_key ` set ?ps"
    by (simp add: raw_a1_def raw_record_def proxy_key_def)
  with img have "(''1.1.1.1'', 80) \<in> proxy_key ` set merged" by simp
  then obtain m where m: "m \<in> set merged" and k: "proxy_key m = (''1.1.1.1'', 80)"
    by auto
  have g: "group_of (proxy_key m) ?ps = [raw_a1, raw_a2]"
    unfolding k
    by (simp add: group_of_def proxy_key_def raw_a1_def raw_a2_def raw_b_def raw_record_def)
  from fields m obtain first rest where
        fr: "group_of (proxy_key m) ?ps = first # rest"
    and sc: "source_count m = int (length (first # rest))"
    and sp: "speed_ms m = min_observed (List.map_filter speed_ms (first # rest))"
    and re: "reliability m = max_observed (List.map_filter reliability (first # rest))"
    and an: "anonymity m \<in> anonymity ` set (first # rest)"
    and rk: "\<forall>p\<in>set (first # rest). anon_rank (anonymity p) \<le> anon_rank (anonymity m)"
    and pr: "protocol m = protocol first" and ur: "proxy_url m = proxy_url first"
    by blast
  from fr g have eq: "first # rest = [raw_a1, raw_a2]" by simp
  then have first: "first = raw_a1" by simp
  have "source_count m = 2" using sc unfolding eq by simp
  moreover have "speed_ms m = Some 80"
    using sp unfolding eq
    by (simp add: map_filter_simps min_observed_def raw_a1_def raw_a2_def raw_record_def)
  moreover have "reliability m = Some (binary64 (9 / 10))"
    using re reliability_example_order unfolding eq
    by (simp add: map_filter_simps max_observed_def raw_a1_def raw_a2_def raw_record_def)
  moreover have "anonymity m = Some ''elite''"
  proof -
    from an have "anonymity m = Some ''transparent'' \<or> anonymity m = Some ''elite''"
      unfolding eq by (simp add: raw_a1_def raw_a2_def raw_record_def)
    moreover from rk have "anon_rank (Some ''elite'') \<le> anon_rank (anonymity m)"
      unfolding eq by (simp add: raw_a2_def raw_record_def)
    ultimately show ?thesis using anon_rank_values by auto
  qed
  moreover have "protocol m = ''http''"
    using pr first by (simp add: raw_a1_def raw_record_def)
  moreover have "proxy_url m = ''http://1.1.1.1:80''"
    using ur first by (simp add: raw_a1_def raw_record_def)
  ultimately show ?thesis using out m k by blast
qed


lemma groups_append_rescore:
  assumes "proxy_key (h p) = proxy_key p"
  shows "groups_append (map (\<lambda>kg. (fst kg, map h (snd kg))) gs) (h p)
         = map (\<lambda>kg. (fst kg, map h (snd kg))) (groups_append gs p)"
  using assms by (induction gs) auto

lemma build_groups_rescore:
  assumes "\<And>p. proxy_key (h p) = proxy_key p"
  shows "build_groups (map h ps) = map (\<lambda>kg. (fst kg, map h (snd kg))) (build_groups ps)"
proof (induction ps rule: rev_induct)
  case Nil
  show ?case by (simp add: build_groups_def)
next
  case (snoc p ps)
  have "proxy_key (h p) = proxy_key p" by (rule assms)
  with groups_append_rescore [of h p "build_groups ps"] snoc.IH
  show ?case by (simp add: build_groups_snoc)
qed

lemma merge_step_rescore: "merge_step st (p\<lparr>quality_score := q\<rparr>) = merge_step st p"
  by (cases st) auto

lemma merge_fold_rescore:
  "foldl merge_step st (map (\<lambda>p. p\<lparr>quality_score := f p\<rparr>) g) = foldl merge_step st g"
  by (induction g arbitrary: st) (simp_all add: merge_step_rescore del: merge_step.simps)

lemma merge_group_rescore:
  "merge_group (map (\<lambda>p. p\<lparr>quality_score := f p\<rparr>) g) = merge_group g"
proof (cases g)
  case Nil
  then show ?thesis by simp
next
  case (Cons base rest)
  have "foldl merge_step (None, None, anonymity base)
          (map (\<lambda>p. p\<lparr>quality_score := f p\<rparr>) (base # rest))
        = foldl merge_step (None, None, anonymity base) (base # rest)"
    by (rule merge_fold_rescore)
  then show ?thesis
    unfolding Cons by (simp del: foldl_Cons merge_step.simps add: Let_def)
qed

lemma merge_groups_rescore:
  "merge_groups (map (\<lambda>kg. (fst kg, map (\<lambda>p. p\<lparr>quality_score := f p\<rparr>) (snd kg))) gs)
   = merge_groups gs"
  by (induction gs) (auto simp: merge_group_rescore split: sum.splits)

lemma merge_and_deduplicate_rescore:
  "merge_and_deduplicate (map (\<lambda>p. p\<lparr>quality_score := f p\<rparr>) ps) = merge_and_deduplicate ps"
proof -
  have "build_groups (map (\<lambda>p. p\<lparr>quality_score := f p\<rparr>) ps)
        = map (\<lambda>kg. (fst kg, map (\<lambda>p. p\<lparr>quality_score := f p\<rparr>) (snd kg))) (build_groups ps)"
    by (rule build_groups_rescore) (simp add: proxy_key_def)
  then show ?thesis
    by (simp add: merge_and_deduplicate_def merge_groups_rescore)
qed

text \<open>
  Claim C4. The merged output holds exactly one record for each distinct (address, port)
  of the input: the keys of the output are pairwise distinct and are the keys of the input.
  The score of each output record is \<open>compute_quality_score\<close> of that record, and the
  whole output stays the same however the \<open>quality_score\<close> fields of the raw records are
  set, so no score is carried over from a raw record.
\<close>

theorem merge_unique_keys_and_recomputed_scores:
  "\<exists>merged. merge_and_deduplicate all_proxies = Inr merged
     \<and> distinct (map proxy_key merged)
     \<and> set (map proxy_key merged) = set (map proxy_key all_proxies)
     \<and> (\<forall>m\<in>set merged. quality_score m = compute_quality_score m)
     \<and> (\<forall>f. merge_and_deduplicate (map (\<lambda>p. p\<lparr>quality_score := f p\<rparr>) all_proxies)
              = Inr merged)"
proof -
  from merge_structure [of all_proxies] obtain ms
    where out: "merge_and_deduplicate all_proxies = Inr (sort_by_quality_desc ms)"
      and keys: "map proxy_key ms = map fst (build_groups all_proxies)"
      and each: "\<forall>m\<in>set ms. group_of (proxy_key m) all_proxies \<noteq> []
                   \<and> merge_group (group_of (proxy_key m) all_proxies) = Inr m"
    by blast
  let ?merged = "sort_by_quality_desc ms"
  have "distinct (map proxy_key ms)"
    using keys build_groups_keys_distinct [of all_proxies] by simp
  then have d: "distinct (map proxy_key ?merged)"
    by (simp add: sort_by_quality_desc_distinct_keys)
  have s: "set (map proxy_key ?merged) = set (map proxy_key all_proxies)"
    using merged_keys_image [OF keys] by (simp add: sort_by_quality_desc_set)
  have q: "\<forall>m\<in>set ?merged. quality_score m = compute_quality_score m"
  proof
    fix m assume "m \<in> set ?merged"
    then have "m \<in> set ms" by (simp add: sort_by_quality_desc_set)
    with each have ne: "group_of (proxy_key m) all_proxies \<noteq> []"
      and mg: "merge_group (group_of (proxy_key m) all_proxies) = Inr m" by simp_all
    from merge_group_fields [OF ne] mg show "quality_score m = compute_quality_score m"
      by auto
  qed
  from out d s q merge_and_deduplicate_rescore show ?thesis by simp
qed

theorem merge_unique_keys_and_recomputed_scores_witness:
  "\<exists>merged. merge_and_deduplicate [raw_a1\<lparr>quality_score := 1 / 2\<rparr>, raw_b, raw_a2] = Inr merged
     \<and> length merged = 2
     \<and> (\<forall>m\<in>set merged. quality_score m = compute_quality_score m)
     \<and> merge_and_deduplicate [raw_a1, raw_b, raw_a2] = Inr merged"
proof -
  let ?ps = "[raw_a1\<lparr>quality_score := 1 / 2\<rparr>, raw_b, raw_a2]"
  from merge_unique_keys_and_recomputed_scores [of ?ps] obtain merged
    where out: "merge_and_deduplicate ?ps = Inr merged"
      and d: "distinct (map proxy_key merged)"
      and s: "set (map proxy_key merged) = set (map proxy_key ?ps)"
      and q: "\<forall>m\<in>set merged. quality_score m = compute_quality_score m"
      and r: "\<forall>f. merge_and_deduplicate (map (\<lambda>p. p\<lparr>quality_score := f p\<rparr>) ?ps) = Inr merged"
    by blast
  have "set (map proxy_key ?ps) = {(''1.1.1.1'', 80), (''2.2.2.2'', 8080)}"
    by (auto simp: proxy_key_def raw_a1_def raw_a2_def raw_b_def raw_record_def)
  then have "card (set (map proxy_key ?ps)) = 2" by simp
  with s have "card (set (map proxy_key merged)) = 2" by simp
  with d have len: "length merged = 2" using distinct_card [OF d] by simp
  have "map (\<lambda>p. p\<lparr>quality_score := 0\<rparr>) ?ps = [raw_a1, raw_b, raw_a2]"
    by (simp add: raw_a1_def raw_a2_def raw_b_def raw_record_def)
  with r [rule_format, of "\<lambda>p. 0"] have "merge_and_deduplicate [raw_a1, raw_b, raw_a2] = Inr merged"
    by simp
  with out len q show ?thesis by blast
qed


subsection \<open>The merge on the example data\<close>

lemma compute_quality_score_cong:
  assumes "source_count p = source_count q" and "reliability p = reliability q"
    and "speed_ms p = speed_ms q" and "anonymity p = anonymity q"
    and "verified_targets p = verified_targets q"
  shows "compute_quality_score p = compute_quality_score q"
  using assms by (simp add: compute_quality_score_def)

lemma merge_group_eval:
  assumes "foldl merge_step (None, None, anonymity base) (base # rest) = (bs, br, ba)"
  shows "merge_group (base # rest) =
     Inr \<lparr>ip = ip base, port = port base, protocol = protocol base, anonymity = ba,
          country = country base, city = None, proxy_url = proxy_url base, speed_ms = bs,
          reliability = br, source_count = int (length (base # rest)),
          quality_score = compute_quality_score
            \<lparr>ip = ip base, port = port base, protocol = protocol base, anonymity = ba,
             country = country base, city = None, proxy_url = proxy_url base,
             speed_ms = bs, reliability = br, source_count = int (length (base # rest)),
             quality_score = 0, verified_targets = None\<rparr>,
          verified_targets = None\<rparr>"
  using assms by (simp add: Let_def del: foldl_Cons)

lemma merged_a_score: "compute_quality_score merged_a = binary64 (767 / 1000)"
  by code_simp

lemma raw_a1_score: "compute_quality_score raw_a1 = binary64 (495 / 1000)"
  by code_simp

lemma raw_b_score: "compute_quality_score raw_b = binary64 (1 / 10)"
  by code_simp

lemma example_score_order: "binary64 (1 / 10) < binary64 (767 / 1000)"
  by code_simp

lemma merge_fold_a:
  "foldl merge_step (None, None, anonymity raw_a1) [raw_a1, raw_a2]
   = (Some 80, Some (binary64 (9 / 10)), Some ''elite'')"
  by code_simp

lemma merge_group_a: "merge_group [raw_a1, raw_a2] = Inr merged_a"
proof -
  let ?P = "\<lparr>ip = ip raw_a1, port = port raw_a1, protocol = protocol raw_a1,
             anonymity = Some ''elite'', country = country raw_a1, city = None,
             proxy_url = proxy_url raw_a1, speed_ms = Some 80,
             reliability = Some (binary64 (9 / 10)),
             source_count = int (length [raw_a1, raw_a2]),
             quality_score = 0, verified_targets = None\<rparr>"
  have "compute_quality_score ?P = compute_quality_score merged_a"
    by (rule compute_quality_score_cong) (simp_all add: merged_a_def)
  then have s: "compute_quality_score ?P = binary64 (767 / 1000)"
    by (simp only: merged_a_score)
  show ?thesis
    unfolding merge_group_eval [OF merge_fold_a] s
    by (simp add: merged_a_def raw_a1_def raw_record_def)
qed

lemma merge_group_single:
  assumes "p = raw_record a pt proto None url None None"
  shows "merge_group [p] = Inr (p\<lparr>quality_score := binary64 (1 / 10)\<rparr>)"
proof -
  have f: "foldl merge_step (None, None, anonymity p) [p] = (None, None, None)"
    unfolding assms by (simp add: raw_record_def truthy_def)
  let ?P = "\<lparr>ip = ip p, port = port p, protocol = protocol p,
             anonymity = None, country = country p, city = None,
             proxy_url = proxy_url p, speed_ms = None, reliability = None,
             source_count = int (length [p]),
             quality_score = 0, verified_targets = None\<rparr>"
  have "compute_quality_score ?P = compute_quality_score raw_b"
    by (rule compute_quality_score_cong) (simp_all add: raw_b_def raw_record_def)
  then have s: "compute_quality_score ?P = binary64 (1 / 10)"
    by (simp only: raw_b_score)
  show ?thesis
    unfolding merge_group_eval [OF f] s
    by (simp add: assms raw_record_def)
qed

lemma merge_group_a1: "merge_group [raw_a1] = Inr (raw_a1\<lparr>quality_score := binary64 (495 / 1000)\<rparr>)"
proof -
  have f: "foldl merge_step (None, None, anonymity raw_a1) [raw_a1]
           = (speed_ms raw_a1, reliability raw_a1, anonymity raw_a1)"
    by (simp add: raw_a1_def raw_record_def truthy_def)
  let ?P = "\<lparr>ip = ip raw_a1, port = port raw_a1, protocol = protocol raw_a1,
             anonymity = anonymity raw_a1, country = country raw_a1, city = None,
             proxy_url = proxy_url raw_a1, speed_ms = speed_ms raw_a1,
             reliability = reliability raw_a1,
             source_count = int (length [raw_a1]),
             quality_score = 0, verified_targets = None\<rparr>"
  have "compute_quality_score ?P = compute_quality_score raw_a1"
    by (rule compute_quality_score_cong) (simp_all add: raw_a1_def raw_record_def)
  then have s: "compute_quality_score ?P = binary64 (495 / 1000)"
    by (simp only: raw_a1_score)
  show ?thesis
    unfolding merge_group_eval [OF f] s
    by (simp add: raw_a1_def raw_record_def)
qed

lemma build_groups_example:
  "build_groups [raw_b, raw_a1, raw_c, raw_a2]
   = [(proxy_key raw_b, [raw_b]), (proxy_key raw_a1, [raw_a1, raw_a2]), (proxy_key raw_c, [raw_c])]"
  by (simp add: build_groups_def proxy_key_def raw_a1_def raw_a2_def raw_b_def raw_c_def
      raw_record_def)

lemma merge_example:
  "merge_and_deduplicate [raw_b, raw_a1, raw_c, raw_a2]
   = Inr [merged_a, raw_b\<lparr>quality_score := binary64 (1 / 10)\<rparr>,
          raw_c\<lparr>quality_score := binary64 (1 / 10)\<rparr>]"
proof -
  have b: "merge_group [raw_b] = Inr (raw_b\<lparr>quality_score := binary64 (1 / 10)\<rparr>)"
    by (rule merge_group_single) (rule raw_b_def)
  have c: "merge_group [raw_c] = Inr (raw_c\<lparr>quality_score := binary64 (1 / 10)\<rparr>)"
    by (rule merge_group_single) (rule raw_c_def)
  have g: "merge_groups (build_groups [raw_b, raw_a1, raw_c, raw_a2])
           = Inr [raw_b\<lparr>quality_score := binary64 (1 / 10)\<rparr>, merged_a,
                  raw_c\<lparr>quality_score := binary64 (1 / 10)\<rparr>]"
    unfolding build_groups_example by (simp add: b c merge_group_a del: merge_group.simps)
  have lt: "binary64 (1 / 10) < binary64 (767 / 1000)" by (rule example_score_order)
  have "sort_by_quality_desc [raw_b\<lparr>quality_score := binary64 (1 / 10)\<rparr>, merged_a,
                  raw_c\<lparr>quality_score := binary64 (1 / 10)\<rparr>]
        = [merged_a, raw_b\<lparr>quality_score := binary64 (1 / 10)\<rparr>,
           raw_c\<lparr>quality_score := binary64 (1 / 10)\<rparr>]"
    using lt by (simp add: sort_by_quality_desc_def merged_a_def)
  then show ?thesis by (simp add: merge_and_deduplicate_def g)
qed

lemma merge_example_pair: "merge_and_deduplicate [raw_a1, raw_a2] = Inr [merged_a]"
proof -
  have "build_groups [raw_a1, raw_a2] = [(proxy_key raw_a1, [raw_a1, raw_a2])]"
    by (simp add: build_groups_def proxy_key_def raw_a1_def raw_a2_def raw_record_def)
  then show ?thesis
    by (simp add: merge_and_deduplicate_def merge_group_a sort_by_quality_desc_def
        del: merge_group.simps)
qed

lemma merge_example_single:
  "merge_and_deduplicate [raw_a1] = Inr [raw_a1\<lparr>quality_score := binary64 (495 / 1000)\<rparr>]"
proof -
  have "build_groups [raw_a1] = [(proxy_key raw_a1, [raw_a1])]"
    by (simp add: build_groups_def)
  then show ?thesis
    by (simp add: merge_and_deduplicate_def merge_group_a1 sort_by_quality_desc_def
        del: merge_group.simps)
qed

subsection \<open>Order of the merged output\<close>

lemma sorted_wrt_filter_nth:
  assumes "sorted_wrt R (filter P xs)" and "i < j" and "j < length xs"
    and "P (xs ! i)" and "P (xs ! j)"
  shows "R (xs ! i) (xs ! j)"
proof -
  have i: "i < length xs" using assms(2,3) by simp
  have split: "xs = take i xs @ xs ! i # drop (Suc i) xs"
    using i by (rule id_take_nth_drop)
  have "filter P xs = filter P (take i xs) @ xs ! i # filter P (drop (Suc i) xs)"
    using assms(4) by (subst split) simp
  with assms(1) have "sorted_wrt R (xs ! i # filter P (drop (Suc i) xs))"
    by (simp add: sorted_wrt_append)
  then have all: "\<forall>y\<in>set (filter P (drop (Suc i) xs)). R (xs ! i) y" by simp
  have "xs ! j = drop (Suc i) xs ! (j - Suc i)" using assms(2,3) by simp
  moreover have "j - Suc i < length (drop (Suc i) xs)" using assms(2,3) by simp
  ultimately have "xs ! j \<in> set (drop (Suc i) xs)" by (metis nth_mem)
  with assms(5) all show ?thesis by simp
qed

lemma sort_by_quality_desc_sorted:
  "sorted_wrt (\<lambda>a b. quality_score b \<le> quality_score a) (sort_by_quality_desc ms)"
proof -
  have "sorted (map (\<lambda>p. - quality_score p) (sort_by_quality_desc ms))"
    unfolding sort_by_quality_desc_def by (rule sorted_sort_key)
  then show ?thesis by (simp add: sorted_map)
qed

lemma sort_by_quality_desc_stable:
  "filter (\<lambda>p. quality_score p = q) (sort_by_quality_desc ms)
   = filter (\<lambda>p. quality_score p = q) ms"
  using sort_key_stable [of "\<lambda>p. - quality_score p" "- q" ms]
  by (simp add: sort_by_quality_desc_def)

text \<open>
  Claim C8. The merged output is sorted by \<open>quality_score\<close> in non-increasing order, and
  of two output records with equal score the one whose (address, port) occurs first in
  the input comes first.
\<close>

theorem merge_sorted_descending_and_stable:
  "\<exists>merged. merge_and_deduplicate all_proxies = Inr merged
     \<and> sorted_wrt (\<lambda>a b. quality_score b \<le> quality_score a) merged
     \<and> (\<forall>i j. i < j \<and> j < length merged
            \<and> quality_score (merged ! i) = quality_score (merged ! j)
          \<longrightarrow> first_index (proxy_key (merged ! i)) (map proxy_key all_proxies)
                < first_index (proxy_key (merged ! j)) (map proxy_key all_proxies))"
proof -
  let ?fi = "\<lambda>k. first_index k (map proxy_key all_proxies)"
  let ?R = "\<lambda>a b. ?fi (proxy_key a) < ?fi (proxy_key b)"
  from merge_structure [of all_proxies] obtain ms
    where out: "merge_and_deduplicate all_proxies = Inr (sort_by_quality_desc ms)"
      and keys: "map proxy_key ms = map fst (build_groups all_proxies)"
    by blast
  let ?merged = "sort_by_quality_desc ms"
  have "sorted_wrt (\<lambda>a b. ?fi a < ?fi b) (map proxy_key ms)"
    unfolding keys by (rule build_groups_keys_order)
  then have order: "sorted_wrt ?R ms" by (simp add: sorted_wrt_map)
  have stable: "?R (?merged ! i) (?merged ! j)"
    if "i < j" and "j < length ?merged"
      and "quality_score (?merged ! i) = quality_score (?merged ! j)" for i j
  proof -
    let ?P = "\<lambda>p. quality_score p = quality_score (?merged ! j)"
    have "sorted_wrt ?R (filter ?P ms)" using order by (rule sorted_wrt_filter)
    then have "sorted_wrt ?R (filter ?P ?merged)"
      by (simp add: sort_by_quality_desc_stable)
    from sorted_wrt_filter_nth [OF this that(1,2)] that(3) show ?thesis by simp
  qed
  from out sort_by_quality_desc_sorted [of ms] stable show ?thesis by blast
qed


theorem merge_sorted_descending_and_stable_witness:
  "\<exists>merged. merge_and_deduplicate [raw_b, raw_a1, raw_c, raw_a2] = Inr merged
     \<and> map quality_score merged = [binary64 (767 / 1000), binary64 (1 / 10), binary64 (1 / 10)]
     \<and> sorted_wrt (\<lambda>a b. quality_score b \<le> quality_score a) merged
     \<and> first_index (proxy_key (merged ! 1)) (map proxy_key [raw_b, raw_a1, raw_c, raw_a2])
         < first_index (proxy_key (merged ! 2)) (map proxy_key [raw_b, raw_a1, raw_c, raw_a2])"
proof -
  let ?ps = "[raw_b, raw_a1, raw_c, raw_a2]"
  from merge_sorted_descending_and_stable [of ?ps] obtain merged
    where out: "merge_and_deduplicate ?ps = Inr merged"
      and srt: "sorted_wrt (\<lambda>a b. quality_score b \<le> quality_score a) merged"
      and stable: "\<forall>i j. i < j \<and> j < length merged
            \<and> quality_score (merged ! i) = quality_score (merged ! j)
          \<longrightarrow> first_index (proxy_key (merged ! i)) (map proxy_key ?ps)
                < first_index (proxy_key (merged ! j)) (map proxy_key ?ps)"
    by blast
  from out merge_example
  have m: "merged = [merged_a, raw_b\<lparr>quality_score := binary64 (1 / 10)\<rparr>,
                     raw_c\<lparr>quality_score := binary64 (1 / 10)\<rparr>]"
    by simp
  have scores: "map quality_score merged = [binary64 (767 / 1000), binary64 (1 / 10), binary64 (1 / 10)]"
    unfolding m by (simp add: merged_a_def)
  have "(1::nat) < 2 \<and> 2 < length merged
          \<and> quality_score (merged ! 1) = quality_score (merged ! 2)"
    unfolding m by simp
  with stable have fi: "first_index (proxy_key (merged ! 1)) (map proxy_key ?ps)
                < first_index (proxy_key (merged ! 2)) (map proxy_key ?ps)"
    by blast
  show ?thesis
  proof (intro exI conjI)
    show "merge_and_deduplicate ?ps = Inr merged" by (rule out)
    show "map quality_score merged = [binary64 (767 / 1000), binary64 (1 / 10), binary64 (1 / 10)]" by (rule scores)
    show "sorted_wrt (\<lambda>a b. quality_score b \<le> quality_score a) merged" by (rule srt)
    show "first_index (proxy_key (merged ! 1)) (map proxy_key ?ps)
                < first_index (proxy_key (merged ! 2)) (map proxy_key ?ps)" by (rule fi)
  qed
qed


lemma find_record_of_key:
  "\<exists>out. merge_and_deduplicate ps = Inr out
     \<and> (\<forall>k\<in>proxy_key ` set ps. \<exists>m. find_record k out = Some m
            \<and> merge_group (group_of k ps) = Inr m)"
proof -
  from merge_structure [of ps] obtain ms
    where out: "merge_and_deduplicate ps = Inr (sort_by_quality_desc ms)"
      and keys: "map proxy_key ms = map fst (build_groups ps)"
      and each: "\<forall>m\<in>set ms. group_of (proxy_key m) ps \<noteq> []
                   \<and> merge_group (group_of (proxy_key m) ps) = Inr m"
    by blast
  let ?out = "sort_by_quality_desc ms"
  have "\<exists>m. find_record k ?out = Some m \<and> merge_group (group_of k ps) = Inr m"
    if "k \<in> proxy_key ` set ps" for k
  proof -
    from that merged_keys_image [OF keys] have "k \<in> proxy_key ` set ?out"
      by (simp add: sort_by_quality_desc_set)
    then have "find_record k ?out \<noteq> None"
      by (auto simp: find_record_def find_None_iff)
    then obtain m where f: "find_record k ?out = Some m" by auto
    then have "m \<in> set ?out" and "proxy_key m = k"
      by (auto simp: find_record_def find_Some_iff)
    with each have "merge_group (group_of k ps) = Inr m"
      by (auto simp: sort_by_quality_desc_set)
    with f show ?thesis by blast
  qed
  with out show ?thesis by blast
qed

lemma group_of_distinct_single:
  assumes "distinct (map proxy_key M)" and "p \<in> set M"
  shows "group_of (proxy_key p) M = [p]"
  using assms
proof (induction M)
  case Nil
  then show ?case by simp
next
  case (Cons x xs)
  show ?case
  proof (cases "x = p")
    case True
    from Cons.prems(1) have "proxy_key p \<notin> proxy_key ` set xs" using True by simp
    then have "group_of (proxy_key p) xs = []" by (rule group_of_no_key)
    with True show ?thesis by (simp add: group_of_def)
  next
    case False
    with Cons.prems(2) have p: "p \<in> set xs" by simp
    then have "proxy_key x \<noteq> proxy_key p" using Cons.prems(1) by auto
    moreover have "group_of (proxy_key p) xs = [p]" using Cons.IH Cons.prems(1) p by simp
    ultimately show ?thesis by (simp add: group_of_def)
  qed
qed

lemma group_of_append: "group_of k (xs @ ys) = group_of k xs @ group_of k ys"
  by (simp add: group_of_def)

lemma min_observed_twice:
  "min_observed (List.map_filter f [p, p]) = min_observed (List.map_filter f [p])"
  by (cases "f p") (simp_all add: map_filter_simps min_observed_def)

lemma max_observed_twice:
  "max_observed (List.map_filter f [p, p]) = max_observed (List.map_filter f [p])"
  by (cases "f p") (simp_all add: map_filter_simps max_observed_def)

text \<open>
  Claim C9. For a list \<open>M\<close> with pairwise distinct (address, port), merging \<open>M @ M\<close>
  gives for each (address, port) a record with twice the \<open>source_count\<close> of the record
  that merging \<open>M\<close> gives, and with the same speed, reliability, anonymity, protocol,
  country, proxy_url, address and port.
\<close>

theorem merge_self_concat_doubles_source_count:
  assumes "distinct (map proxy_key M)"
  shows "\<exists>once twice. merge_and_deduplicate M = Inr once
     \<and> merge_and_deduplicate (M @ M) = Inr twice
     \<and> (\<forall>k\<in>proxy_key ` set M. \<exists>m1 m2.
            find_record k once = Some m1 \<and> find_record k twice = Some m2
          \<and> source_count m2 = 2 * source_count m1
          \<and> speed_ms m2 = speed_ms m1 \<and> reliability m2 = reliability m1
          \<and> anonymity m2 = anonymity m1 \<and> protocol m2 = protocol m1
          \<and> country m2 = country m1 \<and> proxy_url m2 = proxy_url m1
          \<and> ip m2 = ip m1 \<and> port m2 = port m1)"
proof -
  from find_record_of_key [of M] obtain once
    where o1: "merge_and_deduplicate M = Inr once"
      and f1: "\<forall>k\<in>proxy_key ` set M. \<exists>m. find_record k once = Some m
                 \<and> merge_group (group_of k M) = Inr m" by blast
  from find_record_of_key [of "M @ M"] obtain twice
    where o2: "merge_and_deduplicate (M @ M) = Inr twice"
      and f2: "\<forall>k\<in>proxy_key ` set (M @ M). \<exists>m. find_record k twice = Some m
                 \<and> merge_group (group_of k (M @ M)) = Inr m" by blast
  have "\<exists>m1 m2.
            find_record k once = Some m1 \<and> find_record k twice = Some m2
          \<and> source_count m2 = 2 * source_count m1
          \<and> speed_ms m2 = speed_ms m1 \<and> reliability m2 = reliability m1
          \<and> anonymity m2 = anonymity m1 \<and> protocol m2 = protocol m1
          \<and> country m2 = country m1 \<and> proxy_url m2 = proxy_url m1
          \<and> ip m2 = ip m1 \<and> port m2 = port m1"
    if k: "k \<in> proxy_key ` set M" for k
  proof -
    from k obtain p where p: "p \<in> set M" and kp: "k = proxy_key p" by auto
    have g1: "group_of k M = [p]"
      unfolding kp using assms p by (rule group_of_distinct_single)
    then have g2: "group_of k (M @ M) = [p, p]" by (simp add: group_of_append)
    from f1 k g1 obtain m1 where r1: "find_record k once = Some m1"
      and m1: "merge_group [p] = Inr m1" by auto
    from f2 k g2 obtain m2 where r2: "find_record k twice = Some m2"
      and m2: "merge_group [p, p] = Inr m2" by auto
    from merge_group_fields [of "[p]"] m1
    have a1: "source_count m1 = 1" "speed_ms m1 = min_observed (List.map_filter speed_ms [p])"
      "reliability m1 = max_observed (List.map_filter reliability [p])"
      "anonymity m1 = anonymity p" "protocol m1 = protocol p" "country m1 = country p"
      "proxy_url m1 = proxy_url p" "ip m1 = ip p" "port m1 = port p"
      by auto
    from merge_group_fields [of "[p, p]"] m2
    have a2: "source_count m2 = 2" "speed_ms m2 = min_observed (List.map_filter speed_ms [p, p])"
      "reliability m2 = max_observed (List.map_filter reliability [p, p])"
      "anonymity m2 = anonymity p" "protocol m2 = protocol p" "country m2 = country p"
      "proxy_url m2 = proxy_url p" "ip m2 = ip p" "port m2 = port p"
      by auto
    have sp: "speed_ms m2 = speed_ms m1"
      using a1(2) a2(2) by (simp only: min_observed_twice)
    have re: "reliability m2 = reliability m1"
      using a1(3) a2(3) by (simp only: max_observed_twice)
    from r1 r2 sp re a1(1,4-9) a2(1,4-9) show ?thesis by simp
  qed
  with o1 o2 show ?thesis by blast
qed

theorem merge_self_concat_doubles_source_count_witness:
  "distinct (map proxy_key [raw_a1, raw_b])
   \<and> (\<exists>once twice m1 m2. merge_and_deduplicate [raw_a1, raw_b] = Inr once
        \<and> merge_and_deduplicate ([raw_a1, raw_b] @ [raw_a1, raw_b]) = Inr twice
        \<and> find_record (''1.1.1.1'', 80) once = Some m1
        \<and> find_record (''1.1.1.1'', 80) twice = Some m2
        \<and> source_count m2 = 2 * source_count m1
        \<and> speed_ms m2 = speed_ms m1 \<and> reliability m2 = reliability m1
        \<and> anonymity m2 = anonymity m1 \<and> protocol m2 = protocol m1
        \<and> country m2 = country m1 \<and> proxy_url m2 = proxy_url m1)"
proof -
  let ?M = "[raw_a1, raw_b]"
  have d: "distinct (map proxy_key ?M)"
    by (simp add: proxy_key_def raw_a1_def raw_b_def raw_record_def)
  have k: "(''1.1.1.1'', 80) \<in> proxy_key ` set ?M"
    by (simp add: proxy_key_def raw_a1_def raw_record_def)
  from merge_self_concat_doubles_source_count [OF d] obtain once twice
    where o1: "merge_and_deduplicate ?M = Inr once"
      and o2: "merge_and_deduplicate (?M @ ?M) = Inr twice"
      and all: "\<forall>k\<in>proxy_key ` set ?M. \<exists>m1 m2.
            find_record k once = Some m1 \<and> find_record k twice = Some m2
          \<and> source_count m2 = 2 * source_count m1
          \<and> speed_ms m2 = speed_ms m1 \<and> reliability m2 = reliability m1
          \<and> anonymity m2 = anonymity m1 \<and> protocol m2 = protocol m1
          \<and> country m2 = country m1 \<and> proxy_url m2 = proxy_url m1
          \<and> ip m2 = ip m1 \<and> port m2 = port m1"
    by blast
  from all k obtain m1 m2 where
    "find_record (''1.1.1.1'', 80) once = Some m1 \<and> find_record (''1.1.1.1'', 80) twice = Some m2
          \<and> source_count m2 = 2 * source_count m1
          \<and> speed_ms m2 = speed_ms m1 \<and> reliability m2 = reliability m1
          \<and> anonymity m2 = anonymity m1 \<and> protocol m2 = protocol m1
          \<and> country m2 = country m1 \<and> proxy_url m2 = proxy_url m1
          \<and> ip m2 = ip m1 \<and> port m2 = port m1"
    by blast
  with d o1 o2 show ?thesis by blast
qed


section \<open>Properties of the cache and the refresh cycle\<close>

text \<open>
  Claim C7. \<open>update(r, s)\<close> sets the record sequence to \<open>r\<close>, the source-status map to
  \<open>s\<close> and the capture timestamp to the current time, and leaves the spot-check ratio
  as it was.
\<close>

theorem update_sets_records_status_timestamp:
  "proxies (update c r s now) = r
   \<and> source_status (update c r s now) = s
   \<and> cached_at (update c r s now) = now
   \<and> spot_check_success_rate (update c r s now) = spot_check_success_rate c"
  by (simp add: update_def)

text \<open>
  Claim C3. When a refresh cycle produces zero merged records and the cache holds a
  non-empty record set, the cycle leaves the record set, the capture timestamp and the
  spot-check ratio as they were and replaces the source-status map by the new one.
\<close>

theorem refresh_keeps_stale_records:
  assumes "fetch_all_sources (proxifly_outcome env) (vakhov_outcome env)
             (clearproxy_outcome env) = Inr ([], new_status)"
    and "proxies cache \<noteq> []"
  shows "proxies (refresh_cache env cache) = proxies cache
     \<and> cached_at (refresh_cache env cache) = cached_at cache
     \<and> spot_check_success_rate (refresh_cache env cache) = spot_check_success_rate cache
     \<and> source_status (refresh_cache env cache) = new_status
     \<and> refresh_cache env cache = cache\<lparr>source_status := new_status\<rparr>"
  using assms by (simp add: refresh_cache_def is_empty_def)

lemma outage_fetch:
  "fetch_all_sources (proxifly_outcome outage_env) (vakhov_outcome outage_env)
     (clearproxy_outcome outage_env) = Inr ([], outage_status)"
  by (simp add: fetch_all_sources_def outage_env_def outage_status_def
      merge_and_deduplicate_def build_groups_def sort_by_quality_desc_def)

theorem refresh_keeps_stale_records_witness:
  "fetch_all_sources (proxifly_outcome outage_env) (vakhov_outcome outage_env)
     (clearproxy_outcome outage_env) = Inr ([], outage_status)
   \<and> proxies cache_before \<noteq> []
   \<and> proxies (refresh_cache outage_env cache_before) = [merged_a]
   \<and> cached_at (refresh_cache outage_env cache_before) = 1000
   \<and> spot_check_success_rate (refresh_cache outage_env cache_before) = Some (4 / 5)
   \<and> source_status (refresh_cache outage_env cache_before) = outage_status"
proof -
  have ne: "proxies cache_before \<noteq> []" by (simp add: cache_before_def)
  from refresh_keeps_stale_records [OF outage_fetch ne] outage_fetch ne
  show ?thesis by (simp add: cache_before_def)
qed


section \<open>Properties of the fetch orchestrator\<close>

lemma fetch_step_eq:
  "fetch_step (all_proxies, status) (name, outcome)
   = (all_proxies @ records_of outcome, status(name \<mapsto> status_of outcome))"
  by (cases outcome) (simp_all add: records_of_def status_of_def)

lemma status_of_ok: "status_of outcome = ''ok'' \<longleftrightarrow> succeeded outcome"
  by (cases outcome) (simp_all add: status_of_def succeeded_def)

lemma merge_and_deduplicate_total: "\<exists>merged. merge_and_deduplicate ps = Inr merged"
  using merge_structure [of ps] by blast

text \<open>
  Claim C6, as the code has it. \<open>fetch_all_sources\<close> does not return the concatenation of
  the adapters' lists: it returns that concatenation after merging, scoring and sorting.
  Two adapters that both report 1.1.1.1:80 give one record, not two.
\<close>

theorem fetch_all_sources_not_concatenation:
  "map_sum id fst (fetch_all_sources (Inr [raw_a1]) (Inr [raw_a2]) (Inl ''ReadTimeout''))
     = Inr [merged_a]
   \<and> [merged_a] \<noteq> [raw_a1] @ [raw_a2] @ []"
proof
  show "map_sum id fst (fetch_all_sources (Inr [raw_a1]) (Inr [raw_a2]) (Inl ''ReadTimeout''))
     = Inr [merged_a]"
    by (simp add: fetch_all_sources_def merge_example_pair)
  show "[merged_a] \<noteq> [raw_a1] @ [raw_a2] @ []" by simp
qed

text \<open>
  Claim C6, amended. For every assignment of outcomes to the three adapters,
  \<open>fetch_all_sources\<close> returns the result of \<open>merge_and_deduplicate\<close> on the concatenation
  (in the order proxifly, vakhov, clearproxy) of the lists of exactly the adapters that
  succeeded, and a status map with exactly the three source names, whose entry is
  \<open>ok\<close> if and only if that adapter succeeded, also with zero records, and
  \<open>error: <exception kind>\<close> otherwise.
\<close>

theorem fetch_all_sources_merges_successful_adapters:
  "\<exists>merged status. fetch_all_sources a b c = Inr (merged, status)
     \<and> merge_and_deduplicate (records_of a @ records_of b @ records_of c) = Inr merged
     \<and> dom status = {''proxifly'', ''vakhov'', ''clearproxy''}
     \<and> status ''proxifly'' = Some (status_of a)
     \<and> status ''vakhov'' = Some (status_of b)
     \<and> status ''clearproxy'' = Some (status_of c)
     \<and> (status ''proxifly'' = Some ''ok'' \<longleftrightarrow> succeeded a)
     \<and> (status ''vakhov'' = Some ''ok'' \<longleftrightarrow> succeeded b)
     \<and> (status ''clearproxy'' = Some ''ok'' \<longleftrightarrow> succeeded c)"
proof -
  let ?all = "records_of a @ records_of b @ records_of c"
  let ?status = "[''proxifly'' \<mapsto> status_of a, ''vakhov'' \<mapsto> status_of b,
                  ''clearproxy'' \<mapsto> status_of c]"
  obtain merged where m: "merge_and_deduplicate ?all = Inr merged"
    using merge_and_deduplicate_total by blast
  have "fetch_all_sources a b c = Inr (merged, ?status)"
    using m by (simp add: fetch_all_sources_def fetch_step_eq del: fetch_step.simps)
  moreover have "dom ?status = {''proxifly'', ''vakhov'', ''clearproxy''}" by auto
  moreover have "?status ''proxifly'' = Some (status_of a)" by simp
  moreover have "?status ''vakhov'' = Some (status_of b)" by simp
  moreover have "?status ''clearproxy'' = Some (status_of c)" by simp
  ultimately show ?thesis using m by (simp add: status_of_ok)
qed

theorem fetch_all_sources_merges_successful_adapters_witness:
  "\<exists>status. fetch_all_sources (Inr [raw_a1]) (Inl ''ReadTimeout'') (Inr []) = Inr ([raw_a1\<lparr>quality_score := binary64 (495 / 1000)\<rparr>], status)
     \<and> status ''proxifly'' = Some ''ok''
     \<and> status ''vakhov'' = Some ''error: ReadTimeout''
     \<and> status ''clearproxy'' = Some ''ok''
     \<and> succeeded (Inr [raw_a1]) \<and> \<not> succeeded (Inl ''ReadTimeout'') \<and> succeeded (Inr [])"
proof -
  from fetch_all_sources_merges_successful_adapters [of "Inr [raw_a1]" "Inl ''ReadTimeout''" "Inr []"]
  obtain merged status
    where f: "fetch_all_sources (Inr [raw_a1]) (Inl ''ReadTimeout'') (Inr []) = Inr (merged, status)"
      and m: "merge_and_deduplicate (records_of (Inr [raw_a1]) @ records_of (Inl ''ReadTimeout'')
                @ records_of (Inr [])) = Inr merged"
      and s1: "status ''proxifly'' = Some (status_of (Inr [raw_a1]))"
      and s2: "status ''vakhov'' = Some (status_of (Inl ''ReadTimeout''))"
      and s3: "status ''clearproxy'' = Some (status_of (Inr []))"
    by (elim exE conjE)
  have "merge_and_deduplicate [raw_a1] = Inr [raw_a1\<lparr>quality_score := binary64 (495 / 1000)\<rparr>]"
    by (rule merge_example_single)
  with m have "merged = [raw_a1\<lparr>quality_score := binary64 (495 / 1000)\<rparr>]"
    by (simp add: records_of_def)
  with f s1 s2 s3 show ?thesis
    by (simp add: status_of_def succeeded_def)
qed


section \<open>Properties of the spot checker\<close>

lemma draw_length: "length (draw rng i pool k) = min k (length pool)"
proof (induction k arbitrary: i pool)
  case 0
  show ?case by simp
next
  case (Suc k)
  show ?case
  proof (cases "pool = []")
    case True
    then show ?thesis by simp
  next
    case False
    then have j: "rng i mod length pool < length pool" by simp
    then have "length (take (rng i mod length pool) pool @ drop (Suc (rng i mod length pool)) pool)
               = length pool - 1" by simp
    then have "length (draw rng (Suc i)
                 (take (rng i mod length pool) pool @ drop (Suc (rng i mod length pool)) pool) k)
               = min k (length pool - 1)"
      using Suc.IH by simp
    moreover have "Suc (min k (length pool - 1)) = min (Suc k) (length pool)"
      using False by (cases pool) simp_all
    ultimately show ?thesis using False by (simp add: Let_def del: length_append)
  qed
qed

lemma draw_mset: "mset (draw rng i pool k) \<subseteq># mset pool"
proof (induction k arbitrary: i pool)
  case 0
  show ?case by simp
next
  case (Suc k)
  show ?case
  proof (cases "pool = []")
    case True
    then show ?thesis by simp
  next
    case False
    let ?j = "rng i mod length pool"
    let ?rest = "take ?j pool @ drop (Suc ?j) pool"
    from False have j: "?j < length pool" by simp
    have "pool = take ?j pool @ pool ! ?j # drop (Suc ?j) pool"
      using j by (rule id_take_nth_drop)
    then have "mset pool = add_mset (pool ! ?j) (mset ?rest)"
      by (metis mset.simps(2) mset_append union_mset_add_mset_right)
    moreover have "mset (draw rng (Suc i) ?rest k) \<subseteq># mset ?rest" by (rule Suc.IH)
    ultimately show ?thesis using False by (simp add: Let_def)
  qed
qed

lemma random_sample_ok:
  assumes "0 \<le> k" and "k \<le> int (length population)"
  shows "\<exists>sample. random_sample rng population k = Inr sample
           \<and> int (length sample) = k \<and> mset sample \<subseteq># mset population"
proof -
  have "random_sample rng population k = Inr (draw rng 0 population (nat k))"
    using assms by (simp add: random_sample_def)
  moreover have "int (length (draw rng 0 population (nat k))) = k"
    using assms by (simp add: draw_length)
  ultimately show ?thesis using draw_mset by blast
qed

lemma probe_successes_le: "probe_successes probe sample \<le> length sample"
proof -
  have "probe_successes probe sample
        \<le> length (map (\<lambda>(i, p). probe i p) (enumerate 0 sample))"
    unfolding probe_successes_def by (rule length_filter_le)
  then show ?thesis by simp
qed

lemma spot_check_empty: "spot_check_proxies rng probe [] N = Inr 0"
  by (simp add: spot_check_proxies_def)

text \<open>
  Claim C5, as stated, fails for a non-positive sample size. With a non-empty record list
  and the sample size 0 the sample is empty and \<open>successes / len(sample)\<close> raises
  \<open>ZeroDivisionError\<close>; with a negative sample size \<open>random.sample\<close> raises
  \<open>ValueError\<close>. In both cases no ratio is returned.
\<close>

theorem spot_check_zero_sample_size_raises:
  "spot_check_proxies first_position always_up [raw_b] 0 = Inl ZeroDivisionError
   \<and> spot_check_proxies first_position always_up [raw_b] (- 1) = Inl ValueError"
  by (simp add: spot_check_proxies_def random_sample_def)

text \<open>
  Claim C5, amended. \<open>spot_check_proxies\<close> returns 0.0 for an empty record list. For every
  non-empty record list and every sample size \<open>N \<ge> 1\<close> it draws a sample of
  \<open>min(N, list length)\<close> records without replacement (no position of the list is drawn
  twice) and returns the number of successful probes divided by \<open>min(N, list length)\<close>,
  a value in \<open>[0, 1]\<close>.
\<close>

theorem spot_check_ratio_for_positive_sample_size:
  "spot_check_proxies rng probe [] N = Inr 0
   \<and> (proxy_list \<noteq> [] \<and> 1 \<le> N \<longrightarrow>
        (\<exists>sample rate.
            random_sample rng proxy_list (min N (int (length proxy_list))) = Inr sample
          \<and> int (length sample) = min N (int (length proxy_list))
          \<and> mset sample \<subseteq># mset proxy_list
          \<and> spot_check_proxies rng probe proxy_list N = Inr rate
          \<and> rate = of_nat (probe_successes probe sample)
                    / of_int (min N (int (length proxy_list)))
          \<and> 0 \<le> rate \<and> rate \<le> 1))"
proof (intro conjI impI)
  show "spot_check_proxies rng probe [] N = Inr 0" by (rule spot_check_empty)
next
  assume a: "proxy_list \<noteq> [] \<and> 1 \<le> N"
  let ?k = "min N (int (length proxy_list))"
  have k0: "0 \<le> ?k" and k1: "?k \<le> int (length proxy_list)" using a by simp_all
  from random_sample_ok [OF k0 k1] obtain sample
    where s: "random_sample rng proxy_list ?k = Inr sample"
      and len: "int (length sample) = ?k"
      and sub: "mset sample \<subseteq># mset proxy_list" by blast
  have pos: "0 < length sample" using len a by (cases proxy_list) auto
  then have ne: "sample \<noteq> []" by auto
  let ?rate = "(of_nat (probe_successes probe sample) / of_nat (length sample)) :: rat"
  have r: "spot_check_proxies rng probe proxy_list N = Inr ?rate"
    using a s ne by (simp add: spot_check_proxies_def probe_successes_def Let_def)
  have "(of_nat (length sample) :: rat) = of_int (int (length sample))" by simp
  then have d: "(of_nat (length sample) :: rat) = of_int ?k" unfolding len .
  have lo: "0 \<le> ?rate" by simp
  have hi: "?rate \<le> 1"
    using probe_successes_le [of probe sample] pos by (simp add: divide_le_eq_1)
  show "\<exists>sample rate.
            random_sample rng proxy_list ?k = Inr sample
          \<and> int (length sample) = ?k
          \<and> mset sample \<subseteq># mset proxy_list
          \<and> spot_check_proxies rng probe proxy_list N = Inr rate
          \<and> rate = of_nat (probe_successes probe sample) / of_int ?k
          \<and> 0 \<le> rate \<and> rate \<le> 1"
  proof (intro exI conjI)
    show "random_sample rng proxy_list ?k = Inr sample" by (rule s)
    show "int (length sample) = ?k" by (rule len)
    show "mset sample \<subseteq># mset proxy_list" by (rule sub)
    show "spot_check_proxies rng probe proxy_list N = Inr ?rate" by (rule r)
    show "?rate = of_nat (probe_successes probe sample) / of_int ?k" unfolding d ..
    show "0 \<le> ?rate" by (rule lo)
    show "?rate \<le> 1" by (rule hi)
  qed
qed

theorem spot_check_ratio_for_positive_sample_size_witness:
  "[raw_a1, raw_b, raw_c] \<noteq> [] \<and> (1::int) \<le> 5
   \<and> spot_check_proxies first_position even_up [] 5 = Inr 0
   \<and> spot_check_proxies first_position even_up [raw_a1, raw_b, raw_c] 5 = Inr (2 / 3)"
proof -
  let ?ps = "[raw_a1, raw_b, raw_c]"
  have a: "?ps \<noteq> [] \<and> (1::int) \<le> 5" by simp
  from spot_check_ratio_for_positive_sample_size [of first_position even_up 5 ?ps] a
  have e: "spot_check_proxies first_position even_up [] 5 = Inr 0"
    and "\<exists>sample rate.
            random_sample first_position ?ps (min 5 (int (length ?ps))) = Inr sample
          \<and> int (length sample) = min 5 (int (length ?ps))
          \<and> mset sample \<subseteq># mset ?ps
          \<and> spot_check_proxies first_position even_up ?ps 5 = Inr rate
          \<and> rate = of_nat (probe_successes even_up sample)
                    / of_int (min 5 (int (length ?ps)))
          \<and> 0 \<le> rate \<and> rate \<le> 1"
    by blast+
  then obtain sample rate
    where s: "random_sample first_position ?ps (min 5 (int (length ?ps))) = Inr sample"
      and r: "spot_check_proxies first_position even_up ?ps 5 = Inr rate"
      and v: "rate = of_nat (probe_successes even_up sample)
                    / of_int (min 5 (int (length ?ps)))"
    by (elim exE conjE)
  have "random_sample first_position ?ps (min 5 (int (length ?ps))) = Inr ?ps"
    by code_simp
  with s have sample: "sample = ?ps" by simp
  have "probe_successes even_up ?ps = 2"
    by (simp add: probe_successes_def even_up_def)
  with v sample have "rate = 2 / 3" by simp
  with r e a show ?thesis by simp
qed

text \<open>
  Claim C10. For a non-empty record list and a sample size \<open>N \<ge> 1\<close> the sample drawn has
  length \<open>min(N, list length) \<ge> 1\<close>, so the final division has a non-zero divisor and
  \<open>spot_check_proxies\<close> returns a ratio and raises nothing. The bound on \<open>N\<close> is needed:
  for the same list and \<open>N = 0\<close> the sample is empty and the division raises
  \<open>ZeroDivisionError\<close>.
\<close>

theorem spot_check_divisor_nonzero:
  assumes "proxy_list \<noteq> []" and "1 \<le> N"
  shows "(\<exists>sample. random_sample rng proxy_list (min N (int (length proxy_list))) = Inr sample
            \<and> int (length sample) = min N (int (length proxy_list))
            \<and> 1 \<le> length sample
            \<and> spot_check_proxies rng probe proxy_list N
                = Inr (of_nat (probe_successes probe sample) / of_nat (length sample)))
     \<and> spot_check_proxies rng probe proxy_list 0 = Inl ZeroDivisionError"
proof
  let ?k = "min N (int (length proxy_list))"
  have k0: "0 \<le> ?k" and k1: "?k \<le> int (length proxy_list)" using assms(2) by simp_all
  from random_sample_ok [OF k0 k1] obtain sample
    where s: "random_sample rng proxy_list ?k = Inr sample"
      and len: "int (length sample) = ?k" by blast
  have pos: "1 \<le> length sample" using len assms by (cases proxy_list) auto
  then have "sample \<noteq> []" by auto
  then have "spot_check_proxies rng probe proxy_list N
          = Inr (of_nat (probe_successes probe sample) / of_nat (length sample))"
    using assms(1) s by (simp add: spot_check_proxies_def probe_successes_def Let_def)
  with s len pos
  show "\<exists>sample. random_sample rng proxy_list ?k = Inr sample
            \<and> int (length sample) = ?k \<and> 1 \<le> length sample
            \<and> spot_check_proxies rng probe proxy_list N
                = Inr (of_nat (probe_successes probe sample) / of_nat (length sample))"
    by blast
next
  show "spot_check_proxies rng probe proxy_list 0 = Inl ZeroDivisionError"
    using assms(1) by (simp add: spot_check_proxies_def random_sample_def)
qed

theorem spot_check_divisor_nonzero_witness:
  "[raw_a1, raw_b, raw_c] \<noteq> [] \<and> (1::int) \<le> 2
   \<and> spot_check_proxies first_position even_up [raw_a1, raw_b, raw_c] 2 = Inr (1 / 2)
   \<and> spot_check_proxies first_position even_up [raw_a1, raw_b, raw_c] 0 = Inl ZeroDivisionError"
proof -
  let ?ps = "[raw_a1, raw_b, raw_c]"
  have ne: "?ps \<noteq> []" by simp
  have n: "(1::int) \<le> 2" by simp
  from spot_check_divisor_nonzero [OF ne n, of first_position even_up]
  obtain sample where s: "random_sample first_position ?ps (min 2 (int (length ?ps))) = Inr sample"
    and r: "spot_check_proxies first_position even_up ?ps 2
                = Inr (of_nat (probe_successes even_up sample) / of_nat (length sample))"
    and z: "spot_check_proxies first_position even_up ?ps 0 = Inl ZeroDivisionError"
    by (elim exE conjE)
  have "random_sample first_position ?ps (min 2 (int (length ?ps))) = Inr [raw_a1, raw_b]"
    by code_simp
  with s have sample: "sample = [raw_a1, raw_b]" by simp
  have "probe_successes even_up [raw_a1, raw_b] = 1"
    by (simp add: probe_successes_def even_up_def)
  with r sample have "spot_check_proxies first_position even_up ?ps 2 = Inr (1 / 2)" by simp
  with ne n z show ?thesis by simp
qed


end
